theory Spec2Isabelle
  imports Complex_Main "HOL-Library.Word" "HOL-Library.Log_Nat"
begin

unbundle bit_operations_syntax

section \<open>JavaScript values\<close>

text \<open>
  Keys and values of the collections are arbitrary JavaScript values (\<open>key: any\<close>).
  A number is an IEEE double: the three special values, the negative zero, and the finite
  values, held as the rational they denote (\<open>Fin 0\<close> is \<open>+0\<close>).  A string is its sequence
  of UTF-16 code units.  Objects, functions and symbols are references, compared by identity.
  The process-wide caches \<open>OBJ_HASH\<close> and \<open>SYM_HASH\<close> of \<open>hamt.ts\<close> give every object and
  every symbol a sequence number the first time it is hashed and never change it; the
  number is therefore a name of the identity, and the model names an object or a symbol by it.
  A function is named by a number of its own.
\<close>

datatype jsnum = NaN | PosInf | NegInf | NegZero | Fin rat

type_synonym jsstring = "16 word list"

datatype jsval =
    VUndefined
  | VNull
  | VBool bool
  | VNum jsnum
  | VStr jsstring
  | VBigInt int
  | VSymbol nat
  | VObject nat
  | VFunction nat

type_synonym u32 = "32 word"

text \<open>\<open>a === b\<close>: no NaN equals itself, the two zeros are equal.\<close>

fun strict_eq :: "jsval \<Rightarrow> jsval \<Rightarrow> bool" where
  "strict_eq (VNum a) (VNum b) =
     (a \<noteq> NaN \<and> (a = b \<or> (a = NegZero \<and> b = Fin 0) \<or> (a = Fin 0 \<and> b = NegZero)))"
| "strict_eq a b = (a = b)"

text \<open>\<open>Object.is(a, b)\<close>: the same value; NaN is NaN, and \<open>+0\<close> is not \<open>-0\<close>.\<close>

definition object_is :: "jsval \<Rightarrow> jsval \<Rightarrow> bool" where
  "object_is a b = (a = b)"

text \<open>\<open>x | 0\<close> on a number: truncate towards zero, then wrap to 32 bits.\<close>

definition trunc_rat :: "rat \<Rightarrow> int" where
  "trunc_rat r = (if 0 \<le> r then \<lfloor>r\<rfloor> else - \<lfloor>- r\<rfloor>)"

fun toInt32 :: "jsnum \<Rightarrow> u32" where
  "toInt32 (Fin r) = word_of_int (trunc_rat r)"
| "toInt32 _ = 0"

text \<open>The largest finite double, \<open>(2^53 - 1) * 2^971\<close>.\<close>

definition MAX_DOUBLE :: rat where
  "MAX_DOUBLE = (2 ^ 53 - 1) * 2 ^ 971"

text \<open>
  \<open>n * 4294967296\<close>: scaling a double by a power of two is exact unless it overflows
  to an infinity.
\<close>

fun times_2_32 :: "jsnum \<Rightarrow> jsnum" where
  "times_2_32 (Fin r) =
     (if r * 4294967296 > MAX_DOUBLE then PosInf
      else if r * 4294967296 < - MAX_DOUBLE then NegInf
      else Fin (r * 4294967296))"
| "times_2_32 n = n"

text \<open>
  The product of two non-negative integers as a double: exact below \<open>2^53\<close>, otherwise
  rounded to 53 significant bits, ties to even.
\<close>

definition round_double :: "nat \<Rightarrow> nat" where
  "round_double n =
     (if floorlog 2 n \<le> 53 then n
      else let e = floorlog 2 n - 53;
               q = n div 2 ^ e;
               r = n mod 2 ^ e;
               half = 2 ^ (e - 1)
           in (if r > half \<or> (r = half \<and> odd q) then q + 1 else q) * 2 ^ e)"

section \<open>Hashing (\<open>hamt.ts\<close>)\<close>

text \<open>Splitmix32 finalizer.\<close>

definition mix32 :: "u32 \<Rightarrow> u32" where
  "mix32 z0 =
     (let z = z0 + 0x9e3779b9;
          z = z XOR drop_bit 16 z;
          z = z * 0x85ebca6b;
          z = z XOR drop_bit 13 z;
          z = z * 0xc2b2ae35;
          z = z XOR drop_bit 16 z
      in z)"

text \<open>\<open>key.charCodeAt(i) & 0xff\<close> as a 32-bit integer.\<close>

definition byte_of :: "16 word \<Rightarrow> u32" where
  "byte_of c = ucast (c AND 0xff)"

definition rotl32 :: "u32 \<Rightarrow> nat \<Rightarrow> u32" where
  "rotl32 x r = push_bit r x OR drop_bit (32 - r) x"

text \<open>One round of the \<open>while (i + 4 <= key.length)\<close> loop of \<open>murmur3\<close>.\<close>

definition murmur_round :: "u32 \<Rightarrow> 16 word \<Rightarrow> 16 word \<Rightarrow> 16 word \<Rightarrow> 16 word \<Rightarrow> u32" where
  "murmur_round h c0 c1 c2 c3 =
     (let k = byte_of c0 OR push_bit 8 (byte_of c1) OR push_bit 16 (byte_of c2)
                OR push_bit 24 (byte_of c3);
          k = k * 0xcc9e2d51;
          k = rotl32 k 15;
          k = k * 0x1b873593;
          h = h XOR k;
          h = rotl32 h 13
      in h * 5 + 0xe6546b64)"

text \<open>The loop; it returns \<open>h\<close> and the characters left over (fewer than four).\<close>

fun murmur_loop :: "u32 \<Rightarrow> jsstring \<Rightarrow> u32 \<times> jsstring" where
  "murmur_loop h (c0 # c1 # c2 # c3 # rest) = murmur_loop (murmur_round h c0 c1 c2 c3) rest"
| "murmur_loop h rest = (h, rest)"

text \<open>The \<open>switch (key.length & 3)\<close> with its fall-through cases.\<close>

fun murmur_tail :: "u32 \<Rightarrow> jsstring \<Rightarrow> u32" where
  "murmur_tail h [] = h"
| "murmur_tail h rest =
     (let k = 0;
          k = (if length rest = 3 then k XOR push_bit 16 (byte_of (rest ! 2)) else k);
          k = (if length rest \<ge> 2 then k XOR push_bit 8 (byte_of (rest ! 1)) else k);
          k = k XOR byte_of (rest ! 0);
          k = k * 0xcc9e2d51;
          k = rotl32 k 15;
          k = k * 0x1b873593
      in h XOR k)"

definition murmur3 :: "jsstring \<Rightarrow> u32 \<Rightarrow> u32" where
  "murmur3 key seed =
     (let h = seed XOR of_nat (length key);
          (h, rest) = murmur_loop h key;
          h = murmur_tail h rest;
          h = h XOR of_nat (length key);
          h = h XOR drop_bit 16 h;
          h = h * 0x85ebca6b;
          h = h XOR drop_bit 13 h;
          h = h * 0xc2b2ae35;
          h = h XOR drop_bit 16 h
      in h)"

text \<open>\<open>key.toString()\<close> of a bigint: decimal digits, a minus sign when negative.\<close>

fun decimal_digits :: "nat \<Rightarrow> jsstring" where
  "decimal_digits n =
     (if n < 10 then [of_nat (48 + n)]
      else decimal_digits (n div 10) @ [of_nat (48 + n mod 10)])"

declare decimal_digits.simps [simp del]

definition bigint_toString :: "int \<Rightarrow> jsstring" where
  "bigint_toString i = (if i < 0 then 45 # decimal_digits (nat (- i)) else decimal_digits (nat i))"

text \<open>The inner loop of the bigint case: \<open>v = (v << 8) | chunk.charCodeAt(j)\<close>.\<close>

fun bigint_chunk :: "u32 \<Rightarrow> jsstring \<Rightarrow> u32" where
  "bigint_chunk v [] = v"
| "bigint_chunk v (c # cs) = bigint_chunk (push_bit 8 v OR ucast c) cs"

text \<open>The outer loop: four characters at a time, \<open>h = mix32(h ^ v)\<close>.\<close>

fun bigint_hash :: "u32 \<Rightarrow> jsstring \<Rightarrow> u32" where
  "bigint_hash h [] = h"
| "bigint_hash h (c # cs) =
     bigint_hash (mix32 (h XOR bigint_chunk 0 (take 4 (c # cs)))) (drop 4 (c # cs))"

fun hashKey :: "jsval \<Rightarrow> u32" where
  "hashKey (VStr s) = murmur3 s 0"
| "hashKey (VNum k) =
     (let n = (if k = NegZero then Fin 0 else k)
      in mix32 (toInt32 n XOR (toInt32 (times_2_32 n) * 0x9e3779b1)))"
| "hashKey (VBool b) = (if b then 0x27d4eb2d else 0x165667b1)"
| "hashKey (VBigInt i) = bigint_hash 0 (bigint_toString i)"
| "hashKey (VSymbol i) = of_nat (round_double (i * 0x9e3779b1))"
| "hashKey VNull = 0x811c9dc5"
| "hashKey (VObject i) = of_nat (round_double (i * 0x85ebca77))"
| "hashKey VUndefined = 0x9747b28c"
| "hashKey (VFunction i) = 0x9747b28c"

fun is_zero :: "jsval \<Rightarrow> bool" where
  "is_zero (VNum (Fin r)) = (r = 0)"
| "is_zero (VNum NegZero) = True"
| "is_zero _ = False"

text \<open>
  \<open>typeof a === 'number' && typeof b === 'number'\<close> and \<open>a === 0 && b === 0\<close> hold together
  exactly when both are numbers that are a zero.
\<close>

definition keyEquals :: "jsval \<Rightarrow> jsval \<Rightarrow> bool" where
  "keyEquals a b = (if is_zero a \<and> is_zero b then True else object_is a b)"

section \<open>The HAMT (\<open>hamt.ts\<close>)\<close>

definition BITS :: nat where "BITS = 5"
definition BRANCH_FACTOR :: nat where "BRANCH_FACTOR = 2 ^ BITS"
definition MASK :: u32 where "MASK = of_nat (BRANCH_FACTOR - 1)"

text \<open>An owner token is an object, or \<open>undefined\<close> (\<open>None\<close>).\<close>

type_synonym owner = "nat option"

datatype hleaf = Leaf (key: jsval) (hash: u32) (val: jsval)

datatype hchild =
    is_HLeaf: HLeaf hleaf
  | is_HCollision: HCollision "hleaf list"
  | is_HNode: HNode owner u32 "hchild list"

record hmap =
  root :: "hchild option"
  msize :: int

text \<open>
  Modelled from the spec: \<open>popcount\<close> of \<open>utils.ts\<close> is not among the sources; the spec
  calls it the population count of a 32-bit bitmap.
\<close>

definition popcount :: "u32 \<Rightarrow> nat" where
  "popcount w = length (filter (bit w) [0..<32])"

text \<open>\<open>(hash >>> shift) & MASK\<close>; JavaScript takes a shift count modulo 32.\<close>

definition hash_index :: "u32 \<Rightarrow> nat \<Rightarrow> nat" where
  "hash_index h shift = unat (drop_bit (shift mod 32) h AND MASK)"

text \<open>\<open>1 << idx\<close>.\<close>

definition bit_of :: "nat \<Rightarrow> u32" where
  "bit_of idx = push_bit (idx mod 32) 1"

text \<open>\<open>popcount(bitmap & (bit - 1))\<close>.\<close>

definition packed_index :: "u32 \<Rightarrow> nat \<Rightarrow> nat" where
  "packed_index bitmap idx = popcount (bitmap AND (bit_of idx - 1))"

text \<open>\<open>xs[i]\<close>: \<open>undefined\<close> outside the array.\<close>

definition array_get :: "'a list \<Rightarrow> nat \<Rightarrow> 'a option" where
  "array_get xs i = (if i < length xs then Some (xs ! i) else None)"

text \<open>
  \<open>xs[i] = v\<close>.  At \<open>i = xs.length\<close> the array grows by one.  Beyond that JavaScript
  would leave holes, which the element type \<open>HChild\<close> does not have; the model appends
  there too.  The case does not arise while \<open>children.length\<close> is the population count of
  the bitmap (\<open>packed_index_less\<close> below).
\<close>

definition array_set :: "'a list \<Rightarrow> nat \<Rightarrow> 'a \<Rightarrow> 'a list" where
  "array_set xs i v = (if i < length xs then xs[i := v] else xs @ [v])"

text \<open>\<open>xs.splice(i, 0, v)\<close> and \<open>xs.splice(i, 1)\<close>.\<close>

definition splice_in :: "'a list \<Rightarrow> nat \<Rightarrow> 'a \<Rightarrow> 'a list" where
  "splice_in xs i v = take i xs @ v # drop i xs"

definition splice_out :: "'a list \<Rightarrow> nat \<Rightarrow> 'a list" where
  "splice_out xs i = take i xs @ drop (Suc i) xs"

definition hamtEmpty :: hmap where
  "hamtEmpty = \<lparr>root = None, msize = 0\<rparr>"

text \<open>
  \<open>ensureEditableHNode\<close> returns the node itself when it carries the owner of the edit,
  and a copy stamped with the owner otherwise; the caller then stores into
  \<open>children\<close>.  Either way the node that results has the owner of the edit, the old
  bitmap and the old children: with values in place of references the two cases coincide.
\<close>

definition ensureEditableHNode :: "owner \<Rightarrow> u32 \<Rightarrow> hchild list \<Rightarrow> owner \<Rightarrow> owner \<times> u32 \<times> hchild list" where
  "ensureEditableHNode nowner bitmap children owner =
     (if owner \<noteq> None \<and> nowner = owner then (nowner, bitmap, children)
      else (owner, bitmap, children))"

text \<open>
  \<open>mergeLeaves\<close> recurses one level deeper while the two hashes have the same index.
  On equal hashes it never returns: the result \<open>None\<close>.
\<close>

partial_function (option) mergeLeaves :: "hleaf \<Rightarrow> hleaf \<Rightarrow> owner \<Rightarrow> nat \<Rightarrow> hchild option" where
  "mergeLeaves leaf1 leaf2 owner s =
     (let idx1 = hash_index (hash leaf1) s;
          idx2 = hash_index (hash leaf2) s
      in if idx1 = idx2 then
           Option.bind (mergeLeaves leaf1 leaf2 owner (s + BITS))
             (\<lambda>child. Some (HNode owner (bit_of idx1) [child]))
         else
           Some (HNode owner (bit_of idx1 OR bit_of idx2)
                   (if idx1 < idx2 then [HLeaf leaf1, HLeaf leaf2] else [HLeaf leaf2, HLeaf leaf1])))"

declare mergeLeaves.simps [code]

text \<open>The index of the first entry whose key equals \<open>key\<close> (the \<open>for\<close> loop with \<open>break\<close>).\<close>

fun find_entry :: "hleaf list \<Rightarrow> jsval \<Rightarrow> nat \<Rightarrow> nat option" where
  "find_entry [] k i = None"
| "find_entry (e # es) k i = (if keyEquals (key e) k then Some i else find_entry es k (Suc i))"

record insert_result =
  node :: hchild
  added :: bool
  changed :: bool

function hamtInsert ::
  "hchild option \<Rightarrow> owner \<Rightarrow> u32 \<Rightarrow> jsval \<Rightarrow> jsval \<Rightarrow> nat \<Rightarrow> insert_result option" where
  "hamtInsert None owner h k v shift =
     Some \<lparr>node = HLeaf (Leaf k h v), added = True, changed = True\<rparr>"
| "hamtInsert (Some (HLeaf leaf)) owner h k v shift =
     (if hash leaf = h \<and> keyEquals (key leaf) k then
        (if strict_eq (val leaf) v then Some \<lparr>node = HLeaf leaf, added = False, changed = False\<rparr>
         else Some \<lparr>node = HLeaf (Leaf k h v), added = False, changed = True\<rparr>)
      else if hash leaf = h \<and> \<not> keyEquals (key leaf) k then
        Some \<lparr>node = HCollision [leaf, Leaf k h v], added = True, changed = True\<rparr>
      else
        Option.bind (mergeLeaves leaf (Leaf k h v) owner shift)
          (\<lambda>merged. Some \<lparr>node = merged, added = True, changed = True\<rparr>))"
| "hamtInsert (Some (HCollision entries)) owner h k v shift =
     (case find_entry entries k 0 of
        Some idx \<Rightarrow>
          (if strict_eq (val (entries ! idx)) v then
             Some \<lparr>node = HCollision entries, added = False, changed = False\<rparr>
           else
             Some \<lparr>node = HCollision (entries[idx := Leaf k h v]), added = False, changed = True\<rparr>)
      | None \<Rightarrow>
          Some \<lparr>node = HCollision (entries @ [Leaf k h v]), added = True, changed = True\<rparr>)"
| "hamtInsert (Some (HNode nowner bitmap children)) owner h k v shift =
     (let idx = hash_index h shift;
          bit = bit_of idx;
          hasSlot = (bitmap AND bit \<noteq> 0);
          packedIdx = packed_index bitmap idx
      in if \<not> hasSlot then
           Some \<lparr>node = HNode owner (bitmap OR bit) (splice_in children packedIdx (HLeaf (Leaf k h v))),
                 added = True, changed = True\<rparr>
         else
           (case hamtInsert (array_get children packedIdx) owner h k v (shift + BITS) of
              None \<Rightarrow> None
            | Some res \<Rightarrow>
                if \<not> changed res \<and> \<not> added res then
                  Some \<lparr>node = HNode nowner bitmap children, added = False, changed = False\<rparr>
                else
                  (let (eowner, ebitmap, echildren) = ensureEditableHNode nowner bitmap children owner
                   in Some \<lparr>node = HNode eowner ebitmap (array_set echildren packedIdx (node res)),
                             added = added res, changed = True\<rparr>)))"
  by pat_completeness auto
termination
proof (relation "measure (\<lambda>(n, owner, h, k, v, shift). case n of None \<Rightarrow> 0 | Some c \<Rightarrow> size c)")
  fix nowner :: owner and bitmap :: u32 and children :: "hchild list" and owner :: owner
    and h :: u32 and k v :: jsval and shift x xa xb xc
  have "i < length children \<Longrightarrow> size (children ! i) \<le> size_list size children" for i
    by (rule size_list_estimation' [OF nth_mem]) auto
  then show "((array_get children xc, owner, h, k, v, shift + BITS),
              Some (HNode nowner bitmap children), owner, h, k, v, shift)
             \<in> measure (\<lambda>(n, owner, h, k, v, shift). case n of None \<Rightarrow> 0 | Some c \<Rightarrow> size c)"
    by (auto simp: array_get_def less_Suc_eq_le)
qed simp

record remove_result =
  rnode :: "hchild option"
  removed :: bool

function hamtRemove :: "hchild option \<Rightarrow> owner \<Rightarrow> u32 \<Rightarrow> jsval \<Rightarrow> nat \<Rightarrow> remove_result" where
  "hamtRemove None owner h k shift = \<lparr>rnode = None, removed = False\<rparr>"
| "hamtRemove (Some (HLeaf leaf)) owner h k shift =
     (if hash leaf = h \<and> keyEquals (key leaf) k then \<lparr>rnode = None, removed = True\<rparr>
      else \<lparr>rnode = Some (HLeaf leaf), removed = False\<rparr>)"
| "hamtRemove (Some (HCollision entries)) owner h k shift =
     (case find_entry entries k 0 of
        None \<Rightarrow> \<lparr>rnode = Some (HCollision entries), removed = False\<rparr>
      | Some idx \<Rightarrow>
          if length entries = 1 then \<lparr>rnode = None, removed = True\<rparr>
          else
            (let newEntries = splice_out entries idx
             in if length newEntries = 1 then \<lparr>rnode = Some (HLeaf (newEntries ! 0)), removed = True\<rparr>
                else \<lparr>rnode = Some (HCollision newEntries), removed = True\<rparr>))"
| "hamtRemove (Some (HNode nowner bitmap children)) owner h k shift =
     (let idx = hash_index h shift;
          bit = bit_of idx
      in if bitmap AND bit = 0 then \<lparr>rnode = Some (HNode nowner bitmap children), removed = False\<rparr>
         else
           (let packedIdx = packed_index bitmap idx;
                res = hamtRemove (array_get children packedIdx) owner h k (shift + BITS)
            in if \<not> removed res then \<lparr>rnode = Some (HNode nowner bitmap children), removed = False\<rparr>
               else
                 (case rnode res of
                    None \<Rightarrow>
                      (let newBitmap = bitmap XOR bit
                       in if newBitmap = 0 then \<lparr>rnode = None, removed = True\<rparr>
                          else
                            (let newChildren = splice_out children packedIdx
                             in if length newChildren = 1 \<and> \<not> is_HNode (newChildren ! 0)
                                then \<lparr>rnode = Some (newChildren ! 0), removed = True\<rparr>
                                else \<lparr>rnode = Some (HNode owner newBitmap newChildren), removed = True\<rparr>))
                  | Some rn \<Rightarrow>
                      (let (eowner, ebitmap, echildren) = ensureEditableHNode nowner bitmap children owner
                       in \<lparr>rnode = Some (HNode eowner ebitmap (array_set echildren packedIdx rn)),
                           removed = True\<rparr>))))"
  by pat_completeness auto
termination
proof (relation "measure (\<lambda>(n, owner, h, k, shift). case n of None \<Rightarrow> 0 | Some c \<Rightarrow> size c)")
  fix nowner :: owner and bitmap :: u32 and children :: "hchild list" and owner :: owner
    and h :: u32 and k :: jsval and shift x xa xb
  have "i < length children \<Longrightarrow> size (children ! i) \<le> size_list size children" for i
    by (rule size_list_estimation' [OF nth_mem]) auto
  then show "((array_get children xb, owner, h, k, shift + BITS),
              Some (HNode nowner bitmap children), owner, h, k, shift)
             \<in> measure (\<lambda>(n, owner, h, k, shift). case n of None \<Rightarrow> 0 | Some c \<Rightarrow> size c)"
    by (auto simp: array_get_def less_Suc_eq_le)
qed simp

text \<open>The \<open>while (node)\<close> loop of \<open>hamtGet\<close>.\<close>

function hamtGet_loop :: "hchild option \<Rightarrow> u32 \<Rightarrow> jsval \<Rightarrow> nat \<Rightarrow> jsval" where
  "hamtGet_loop None h k shift = VUndefined"
| "hamtGet_loop (Some (HLeaf leaf)) h k shift =
     (if hash leaf = h \<and> keyEquals (key leaf) k then val leaf else VUndefined)"
| "hamtGet_loop (Some (HCollision entries)) h k shift =
     (case find (\<lambda>leaf. keyEquals (key leaf) k) entries of
        Some leaf \<Rightarrow> val leaf
      | None \<Rightarrow> VUndefined)"
| "hamtGet_loop (Some (HNode nowner bitmap children)) h k shift =
     (let idx = hash_index h shift;
          bit = bit_of idx
      in if bitmap AND bit = 0 then VUndefined
         else hamtGet_loop (array_get children (packed_index bitmap idx)) h k (shift + BITS))"
  by pat_completeness auto
termination
proof (relation "measure (\<lambda>(n, h, k, shift). case n of None \<Rightarrow> 0 | Some c \<Rightarrow> size c)")
  fix nowner :: owner and bitmap :: u32 and children :: "hchild list"
    and h :: u32 and k :: jsval and shift x xa
  have "i < length children \<Longrightarrow> size (children ! i) \<le> size_list size children" for i
    by (rule size_list_estimation' [OF nth_mem]) auto
  then show "((array_get children (packed_index bitmap x), h, k, shift + BITS),
              Some (HNode nowner bitmap children), h, k, shift)
             \<in> measure (\<lambda>(n, h, k, shift). case n of None \<Rightarrow> 0 | Some c \<Rightarrow> size c)"
    by (auto simp: array_get_def less_Suc_eq_le)
qed simp

definition hamtGet :: "hmap \<Rightarrow> jsval \<Rightarrow> jsval" where
  "hamtGet m k =
     (case root m of
        None \<Rightarrow> VUndefined
      | Some (HLeaf leaf) \<Rightarrow> (if keyEquals (key leaf) k then val leaf else VUndefined)
      | Some r \<Rightarrow> hamtGet_loop (Some r) (hashKey k) k 0)"

text \<open>The \<open>while (node)\<close> loop of \<open>hamtHas\<close>.\<close>

function hamtHas_loop :: "hchild option \<Rightarrow> u32 \<Rightarrow> jsval \<Rightarrow> nat \<Rightarrow> bool" where
  "hamtHas_loop None h k shift = False"
| "hamtHas_loop (Some (HLeaf leaf)) h k shift = (hash leaf = h \<and> keyEquals (key leaf) k)"
| "hamtHas_loop (Some (HCollision entries)) h k shift =
     (case find (\<lambda>leaf. keyEquals (key leaf) k) entries of
        Some leaf \<Rightarrow> True
      | None \<Rightarrow> False)"
| "hamtHas_loop (Some (HNode nowner bitmap children)) h k shift =
     (let idx = hash_index h shift;
          bit = bit_of idx
      in if bitmap AND bit = 0 then False
         else hamtHas_loop (array_get children (packed_index bitmap idx)) h k (shift + BITS))"
  by pat_completeness auto
termination
proof (relation "measure (\<lambda>(n, h, k, shift). case n of None \<Rightarrow> 0 | Some c \<Rightarrow> size c)")
  fix nowner :: owner and bitmap :: u32 and children :: "hchild list"
    and h :: u32 and k :: jsval and shift x xa
  have "i < length children \<Longrightarrow> size (children ! i) \<le> size_list size children" for i
    by (rule size_list_estimation' [OF nth_mem]) auto
  then show "((array_get children (packed_index bitmap x), h, k, shift + BITS),
              Some (HNode nowner bitmap children), h, k, shift)
             \<in> measure (\<lambda>(n, h, k, shift). case n of None \<Rightarrow> 0 | Some c \<Rightarrow> size c)"
    by (auto simp: array_get_def less_Suc_eq_le)
qed simp

definition hamtHas :: "hmap \<Rightarrow> jsval \<Rightarrow> bool" where
  "hamtHas m k =
     (case root m of
        None \<Rightarrow> False
      | Some (HLeaf leaf) \<Rightarrow> keyEquals (key leaf) k
      | Some r \<Rightarrow> hamtHas_loop (Some r) (hashKey k) k 0)"

text \<open>
  \<open>hamtSet\<close> returns \<open>map\<close> itself when nothing changed.  It does not return when
  \<open>hamtInsert\<close> does not.
\<close>

definition hamtSet :: "hmap \<Rightarrow> owner \<Rightarrow> jsval \<Rightarrow> jsval \<Rightarrow> hmap option" where
  "hamtSet m owner k v =
     (case hamtInsert (root m) owner (hashKey k) k v 0 of
        None \<Rightarrow> None
      | Some res \<Rightarrow>
          if \<not> changed res then Some m
          else Some \<lparr>root = Some (node res), msize = msize m + (if added res then 1 else 0)\<rparr>)"

definition hamtDelete :: "hmap \<Rightarrow> owner \<Rightarrow> jsval \<Rightarrow> hmap" where
  "hamtDelete m owner k =
     (if root m = None then m
      else
        (let res = hamtRemove (root m) owner (hashKey k) k 0
         in if \<not> removed res then m
            else \<lparr>root = rnode res, msize = msize m - 1\<rparr>))"

section \<open>Outcomes of calls\<close>

text \<open>
  A call returns a value, throws, or does not return (the unbounded recursion of
  \<open>mergeLeaves\<close> on equal hashes).
\<close>

datatype error = IndexError | RecipeError jsval

datatype 'a outcome = Returns 'a | Throws error | NoReturn

fun and_then :: "'a outcome \<Rightarrow> ('a \<Rightarrow> 'b outcome) \<Rightarrow> 'b outcome" where
  "and_then (Returns x) f = f x"
| "and_then (Throws e) f = Throws e"
| "and_then NoReturn f = NoReturn"

fun of_option :: "'a option \<Rightarrow> 'a outcome" where
  "of_option (Some x) = Returns x"
| "of_option None = NoReturn"

section \<open>The vector\<close>

text \<open>
  Modelled from the spec: \<open>vec.ts\<close> (the trie with a tail behind \<open>Vec\<close>) is not among the
  sources.  The spec (4.1) gives the contract of each operation in terms of the sequence of
  elements the vector holds: \<open>get(i)\<close> returns the i-th element or \<open>undefined\<close> out of range;
  \<open>assoc(owner, i, v)\<close> returns a vector equal to this one except that position \<open>i\<close> holds
  \<open>v\<close>, and fails with \<open>IndexError\<close> if \<open>i\<close> is not in \<open>[0, count)\<close>; \<open>push(owner, v)\<close>
  appends; \<open>pop(owner)\<close> drops the last element and returns it with the vector, and returns
  \<open>(vec, undefined)\<close> on the empty vector; \<open>fromArray\<close>, \<open>toArray\<close> and \<open>iter\<close> convert.
  All operations are pure.  The model is the sequence itself; \<open>count\<close> is its length.
\<close>

type_synonym 'a vec = "'a list"

definition emptyVec :: "'a vec" where
  "emptyVec = []"

definition vecFromArray :: "'a list \<Rightarrow> 'a vec" where
  "vecFromArray xs = xs"

definition vecToArray :: "'a vec \<Rightarrow> 'a list" where
  "vecToArray v = v"

definition vecIter :: "'a vec \<Rightarrow> 'a list" where
  "vecIter v = v"

definition count :: "'a vec \<Rightarrow> nat" where
  "count v = length v"

definition vecGet :: "'a vec \<Rightarrow> nat \<Rightarrow> 'a option" where
  "vecGet v i = (if i < count v then Some (v ! i) else None)"

definition vecPush :: "'a vec \<Rightarrow> owner \<Rightarrow> 'a \<Rightarrow> 'a vec" where
  "vecPush v owner x = v @ [x]"

definition vecPop :: "'a vec \<Rightarrow> owner \<Rightarrow> 'a vec \<times> 'a option" where
  "vecPop v owner = (if v = [] then (v, None) else (butlast v, Some (last v)))"

definition vecAssoc :: "'a vec \<Rightarrow> owner \<Rightarrow> nat \<Rightarrow> 'a \<Rightarrow> 'a vec outcome" where
  "vecAssoc v owner i x = (if i < count v then Returns (v[i := x]) else Throws IndexError)"

section \<open>The insertion-order index (\<open>order.ts\<close>)\<close>

text \<open>
  A slot of \<open>idxToKey\<close> or \<open>idxToVal\<close> holds a key or a value, or the sentinel \<open>DELETED\<close>, a
  symbol of the library's own that no key or value of a program is.
\<close>

datatype 'a slot = DELETED | Live 'a

definition ORDER_COMPACT_RATIO :: rat where
  "ORDER_COMPACT_RATIO = 1 / 2"

record order_index =
  next_slot :: nat
  keyToIdx :: hmap
  idxToKey :: "jsval slot vec"
  idxToVal :: "jsval slot vec option"
  holes :: nat

text \<open>A slot number as the JavaScript number stored in \<open>keyToIdx\<close>, and back.\<close>

definition slot_number :: "nat \<Rightarrow> jsval" where
  "slot_number i = VNum (Fin (of_nat i))"

text \<open>
  The index a number denotes; a value that is not a non-negative integer is outside
  \<open>[0, count)\<close> of every vector.
\<close>

fun as_index :: "jsval \<Rightarrow> nat option" where
  "as_index (VNum (Fin r)) = (if 0 \<le> r \<and> of_int \<lfloor>r\<rfloor> = r then Some (nat \<lfloor>r\<rfloor>) else None)"
| "as_index other = None"

definition vecAssoc_at :: "'a vec \<Rightarrow> owner \<Rightarrow> jsval \<Rightarrow> 'a \<Rightarrow> 'a vec outcome" where
  "vecAssoc_at v owner idx x =
     (case as_index idx of None \<Rightarrow> Throws IndexError | Some i \<Rightarrow> vecAssoc v owner i x)"

definition orderEmpty :: order_index where
  "orderEmpty = \<lparr>next_slot = 0, keyToIdx = hamtEmpty, idxToKey = emptyVec, idxToVal = None, holes = 0\<rparr>"



text \<open>The loop of \<open>orderFromSetBase\<close>; the state is \<open>(keyToIdx, keys, i)\<close>.\<close>

fun orderFromSetBase_loop ::
  "jsval list \<Rightarrow> owner \<Rightarrow> hmap \<times> jsval slot list \<times> nat \<Rightarrow> (hmap \<times> jsval slot list \<times> nat) option" where
  "orderFromSetBase_loop [] owner st = Some st"
| "orderFromSetBase_loop (v # rest) owner (k2i, keys, i) =
     (case hamtSet k2i owner v (slot_number i) of
        None \<Rightarrow> None
      | Some k2i' \<Rightarrow> orderFromSetBase_loop rest owner (k2i', keys @ [Live v], i + 1))"

definition orderFromSetBase :: "jsval list \<Rightarrow> owner \<Rightarrow> order_index outcome" where
  "orderFromSetBase base owner =
     (case orderFromSetBase_loop base owner (hamtEmpty, [], 0) of
        None \<Rightarrow> NoReturn
      | Some (k2i, keys, i) \<Rightarrow>
          Returns \<lparr>next_slot = i, keyToIdx = k2i, idxToKey = vecFromArray keys,
                   idxToVal = None, holes = 0\<rparr>)"

definition orderAppend :: "order_index \<Rightarrow> owner \<Rightarrow> jsval \<Rightarrow> order_index outcome" where
  "orderAppend ord owner k =
     (let idx = next_slot ord
      in and_then (of_option (hamtSet (keyToIdx ord) owner k (slot_number idx)))
           (\<lambda>k2i. Returns \<lparr>next_slot = idx + 1, keyToIdx = k2i,
                            idxToKey = vecPush (idxToKey ord) owner (Live k),
                            idxToVal = None, holes = holes ord\<rparr>))"

definition orderAppendWithValue :: "order_index \<Rightarrow> owner \<Rightarrow> jsval \<Rightarrow> jsval \<Rightarrow> order_index outcome" where
  "orderAppendWithValue ord owner k v =
     (let idx = next_slot ord
      in and_then (of_option (hamtSet (keyToIdx ord) owner k (slot_number idx)))
           (\<lambda>k2i. Returns \<lparr>next_slot = idx + 1, keyToIdx = k2i,
                            idxToKey = vecPush (idxToKey ord) owner (Live k),
                            idxToVal = (case idxToVal ord of
                                          Some vals \<Rightarrow> Some (vecPush vals owner (Live v))
                                        | None \<Rightarrow> None),
                            holes = holes ord\<rparr>))"

definition orderUpdateValue :: "order_index \<Rightarrow> owner \<Rightarrow> jsval \<Rightarrow> jsval \<Rightarrow> order_index outcome" where
  "orderUpdateValue ord owner k v =
     (case idxToVal ord of
        None \<Rightarrow> Returns ord
      | Some vals \<Rightarrow>
          (let idx = hamtGet (keyToIdx ord) k
           in if idx = VUndefined then Returns ord
              else and_then (vecAssoc_at vals owner idx (Live v))
                     (\<lambda>vals'. Returns \<lparr>next_slot = next_slot ord, keyToIdx = keyToIdx ord,
                                        idxToKey = idxToKey ord, idxToVal = Some vals',
                                        holes = holes ord\<rparr>)))"

text \<open>
  The loop of \<open>orderCompact\<close> over the slots \<open>i\<close>, \<open>i + 1\<close>, ..., \<open>keyLen - 1\<close>; \<open>n\<close> is the
  number of slots left.  The state is \<open>(newKeyToIdx, newKeys, newVals, newIdx)\<close>.  A slot
  that \<open>vecGet\<close> finds \<open>undefined\<close> is not \<open>DELETED\<close>: it is the key \<open>undefined\<close>.
\<close>

fun orderCompact_loop ::
  "order_index \<Rightarrow> owner \<Rightarrow> nat \<Rightarrow> nat \<Rightarrow> hmap \<times> jsval slot list \<times> jsval slot list option \<times> nat \<Rightarrow>
   (hmap \<times> jsval slot list \<times> jsval slot list option \<times> nat) option" where
  "orderCompact_loop ord owner i 0 st = Some st"
| "orderCompact_loop ord owner i (Suc n) (newKeyToIdx, newKeys, newVals, newIdx) =
     (case vecGet (idxToKey ord) i of
        Some DELETED \<Rightarrow> orderCompact_loop ord owner (i + 1) n (newKeyToIdx, newKeys, newVals, newIdx)
      | k \<Rightarrow>
          (let key = (case k of Some (Live x) \<Rightarrow> x | other \<Rightarrow> VUndefined)
           in case hamtSet newKeyToIdx owner key (slot_number newIdx) of
                None \<Rightarrow> None
              | Some k2i \<Rightarrow>
                  orderCompact_loop ord owner (i + 1) n
                    (k2i, newKeys @ [Live key],
                     (case (newVals, idxToVal ord) of
                        (Some nv, Some vals) \<Rightarrow>
                          Some (nv @ [case vecGet vals i of Some x \<Rightarrow> x | None \<Rightarrow> Live VUndefined])
                      | other \<Rightarrow> newVals),
                     newIdx + 1)))"

definition orderCompact :: "order_index \<Rightarrow> owner \<Rightarrow> order_index outcome" where
  "orderCompact ord owner =
     (if holes ord = 0 then Returns ord
      else
        (case orderCompact_loop ord owner 0 (count (idxToKey ord))
                (hamtEmpty, [], (case idxToVal ord of Some vals \<Rightarrow> Some [] | None \<Rightarrow> None), 0) of
           None \<Rightarrow> NoReturn
         | Some (newKeyToIdx, newKeys, newVals, newIdx) \<Rightarrow>
             Returns \<lparr>next_slot = newIdx, keyToIdx = newKeyToIdx, idxToKey = vecFromArray newKeys,
                      idxToVal = (case newVals of Some nv \<Rightarrow> Some (vecFromArray nv) | None \<Rightarrow> None),
                      holes = 0\<rparr>))"

definition orderDelete :: "order_index \<Rightarrow> owner \<Rightarrow> jsval \<Rightarrow> order_index outcome" where
  "orderDelete ord owner k =
     (let idx = hamtGet (keyToIdx ord) k
      in if idx = VUndefined then Returns ord
         else
           (let newHoles = holes ord + 1
            in and_then (vecAssoc_at (idxToKey ord) owner idx DELETED)
                 (\<lambda>keys. and_then
                    (case idxToVal ord of
                       Some vals \<Rightarrow> and_then (vecAssoc_at vals owner idx DELETED) (\<lambda>vals'. Returns (Some vals'))
                     | None \<Rightarrow> Returns None)
                    (\<lambda>vals.
                       (let result = \<lparr>next_slot = next_slot ord,
                                       keyToIdx = hamtDelete (keyToIdx ord) owner k,
                                       idxToKey = keys, idxToVal = vals, holes = newHoles\<rparr>
                        in if of_nat newHoles > of_nat (next_slot ord) * ORDER_COMPACT_RATIO
                              \<and> next_slot ord > 32
                           then orderCompact result owner
                           else Returns result)))))"

text \<open>\<open>orderIter\<close> yields the keys that are not \<open>DELETED\<close>, in slot order.\<close>

fun orderIter_loop :: "jsval slot list \<Rightarrow> jsval list" where
  "orderIter_loop [] = []"
| "orderIter_loop (DELETED # ks) = orderIter_loop ks"
| "orderIter_loop (Live k # ks) = k # orderIter_loop ks"

definition orderIter :: "order_index \<Rightarrow> jsval list" where
  "orderIter ord = orderIter_loop (vecIter (idxToKey ord))"

text \<open>
  \<open>orderEntryIter\<close> walks both vectors together and stops when either ends; it yields the
  key with whatever the value slot holds.
\<close>

fun orderEntryIter_loop :: "jsval slot list \<Rightarrow> jsval slot list \<Rightarrow> (jsval \<times> jsval slot) list" where
  "orderEntryIter_loop (DELETED # ks) (v # vs) = orderEntryIter_loop ks vs"
| "orderEntryIter_loop (Live k # ks) (v # vs) = (k, v) # orderEntryIter_loop ks vs"
| "orderEntryIter_loop ks vs = []"

definition orderEntryIter :: "order_index \<Rightarrow> (jsval \<times> jsval slot) list" where
  "orderEntryIter ord =
     (case idxToVal ord of
        None \<Rightarrow> []
      | Some vals \<Rightarrow> orderEntryIter_loop (vecIter (idxToKey ord)) (vecIter vals))"

section \<open>Iteration and construction of a HAMT\<close>

text \<open>
  \<open>hamtIter\<close> keeps a stack and pushes the children of a branch from the last to the first,
  so it yields the entries in depth-first order, children from the first to the last.
\<close>

fun hamtIter_child :: "hchild \<Rightarrow> (jsval \<times> jsval) list" where
  "hamtIter_child (HLeaf l) = [(key l, val l)]"
| "hamtIter_child (HCollision entries) = map (\<lambda>l. (key l, val l)) entries"
| "hamtIter_child (HNode nowner bitmap children) = concat (map hamtIter_child children)"

definition hamtIter :: "hmap \<Rightarrow> (jsval \<times> jsval) list" where
  "hamtIter m = (case root m of None \<Rightarrow> [] | Some r \<Rightarrow> hamtIter_child r)"

definition hamtToEntries :: "hmap \<Rightarrow> (jsval \<times> jsval) list" where
  "hamtToEntries m = hamtIter m"

text \<open>
  The loops of \<open>hamtFromMap\<close> and \<open>hamtFromSet\<close> over the entries of a native \<open>Map\<close> and the
  values of a native \<open>Set\<close>; \<open>owner\<close> is the fresh token the function makes.
\<close>

fun hamtFromMap_loop :: "(jsval \<times> jsval) list \<Rightarrow> owner \<Rightarrow> hmap \<Rightarrow> hmap option" where
  "hamtFromMap_loop [] owner m = Some m"
| "hamtFromMap_loop ((k, v) # rest) owner m =
     (case hamtSet m owner k v of None \<Rightarrow> None | Some m' \<Rightarrow> hamtFromMap_loop rest owner m')"

definition hamtFromMap :: "(jsval \<times> jsval) list \<Rightarrow> owner \<Rightarrow> hmap option" where
  "hamtFromMap entries owner = hamtFromMap_loop entries owner hamtEmpty"

definition hamtFromSet :: "jsval list \<Rightarrow> owner \<Rightarrow> hmap option" where
  "hamtFromSet vals owner = hamtFromMap_loop (map (\<lambda>v. (v, VBool True)) vals) owner hamtEmpty"

text \<open>
  \<open>hamtSet\<close> returns either its argument or a new object; the test \<open>newMap !== state.map\<close>
  of the set wrapper tells which.  It returned its argument when \<open>hamtInsert\<close> reported no
  change.
\<close>

definition hamtSet_same :: "hmap \<Rightarrow> owner \<Rightarrow> jsval \<Rightarrow> jsval \<Rightarrow> bool" where
  "hamtSet_same m owner k v =
     (case hamtInsert (root m) owner (hashKey k) k v 0 of None \<Rightarrow> False | Some res \<Rightarrow> \<not> changed res)"

section \<open>Native maps keyed by values\<close>

text \<open>
  A native \<open>Map\<close> as the list of its entries in insertion order.  Its keys are compared as
  \<open>keyEquals\<close> compares them, and \<open>set\<close> stores the key \<open>-0\<close> as \<open>+0\<close>.
\<close>

type_synonym 'v native_map = "(jsval \<times> 'v) list"

fun native_get :: "'v native_map \<Rightarrow> jsval \<Rightarrow> 'v option" where
  "native_get [] k = None"
| "native_get ((k', v) # rest) k = (if keyEquals k' k then Some v else native_get rest k)"

definition native_has :: "'v native_map \<Rightarrow> jsval \<Rightarrow> bool" where
  "native_has m k = (native_get m k \<noteq> None)"

fun native_update :: "'v native_map \<Rightarrow> jsval \<Rightarrow> 'v \<Rightarrow> 'v native_map" where
  "native_update [] k v = []"
| "native_update ((k', v') # rest) k v =
     (if keyEquals k' k then (k', v) # rest else (k', v') # native_update rest k v)"

definition native_set :: "'v native_map \<Rightarrow> jsval \<Rightarrow> 'v \<Rightarrow> 'v native_map" where
  "native_set m k v =
     (if native_has m k then native_update m k v
      else m @ [(if k = VNum NegZero then VNum (Fin 0) else k, v)])"

definition native_delete :: "'v native_map \<Rightarrow> jsval \<Rightarrow> 'v native_map" where
  "native_delete m k = filter (\<lambda>e. \<not> keyEquals (fst e) k) m"

section \<open>The state of the wrappers\<close>

text \<open>
  \<open>PuraArrayState\<close>, without the leaf cache and the method cache: the vector is modelled
  by the sequence it holds, which has no leaves to cache, and the method cache holds
  closures over the state.  \<open>proxies\<close> maps an index to the nested draft handed out for
  the element at that index; it exists in a draft only.
\<close>

record array_state =
  arr_vec :: "jsval vec"
  arr_isDraft :: bool
  arr_owner :: owner
  arr_modified :: bool
  arr_proxies :: "(nat \<times> jsval) list option"

text \<open>\<open>HMapState\<close>.\<close>

record hmap_state =
  map_hamt :: hmap
  map_isDraft :: bool
  map_owner :: owner
  map_modified :: bool
  map_valueProxies :: "jsval native_map option"
  map_ordered :: "order_index option"

text \<open>\<open>HSetState\<close>.\<close>

record hset_state =
  set_hamt :: hmap
  set_isDraft :: bool
  set_owner :: owner
  set_modified :: bool
  set_ordered :: "order_index option"

text \<open>A property key: a string or a symbol.\<close>

datatype propkey = PString jsstring | PSymbol nat

section \<open>The array wrapper\<close>

text \<open>
  The loop that reads an index off a property name, from the second character on:
  \<open>idx = idx * 10 + (c - 48)\<close> in double arithmetic, \<open>-1\<close> at the first character that is not
  a digit.  The multiplication and the addition are each rounded to a double; a result
  above the largest double is \<open>Infinity\<close> there and a number above every length here.
\<close>

fun parse_index_loop :: "jsstring \<Rightarrow> nat \<Rightarrow> int" where
  "parse_index_loop [] idx = int idx"
| "parse_index_loop (c # cs) idx =
     (if c < 48 \<or> c > 57 then - 1
      else parse_index_loop cs (round_double (round_double (idx * 10) + (unat c - 48))))"

text \<open>
  The index a property key names: \<open>None\<close> when the key is not a string that starts with a
  digit, otherwise the result of the loop.
\<close>

fun parse_index :: "propkey \<Rightarrow> int option" where
  "parse_index (PString (c0 # cs)) =
     (if c0 \<ge> 48 \<and> c0 \<le> 57 then Some (parse_index_loop cs (unat c0 - 48)) else None)"
| "parse_index other = None"

definition array_length :: "array_state \<Rightarrow> nat" where
  "array_length state = count (arr_vec state)"

text \<open>\<open>push(...items)\<close>: returns the new length.\<close>

definition array_push :: "array_state \<Rightarrow> jsval list \<Rightarrow> nat \<times> array_state" where
  "array_push state items =
     (let v = foldl (\<lambda>v item. vecPush v (arr_owner state) item) (arr_vec state) items
      in (count v, state\<lparr>arr_vec := v, arr_modified := True\<rparr>))"

text \<open>
  \<open>pop()\<close>: returns the element removed, \<open>undefined\<close> on the empty array; the state counts
  as modified when that value is not \<open>undefined\<close>.
\<close>

definition array_pop :: "array_state \<Rightarrow> jsval \<times> array_state" where
  "array_pop state =
     (let (v, r) = vecPop (arr_vec state) (arr_owner state);
          val = (case r of None \<Rightarrow> VUndefined | Some x \<Rightarrow> x)
      in (val, state\<lparr>arr_vec := v,
                      arr_modified := (if val \<noteq> VUndefined then True else arr_modified state)\<rparr>))"

text \<open>
  The \<open>set\<close> trap, for a property key other than \<open>length\<close>: the result of the trap and the
  state after it.  The branch for \<open>length\<close>, which converts the assigned value to a number
  first, is not part of the model, and \<open>None\<close> stands for it.
\<close>

definition array_set_trap :: "array_state \<Rightarrow> propkey \<Rightarrow> jsval \<Rightarrow> (bool \<times> array_state) outcome option" where
  "array_set_trap state prop v =
     (if prop = PString (map of_char ''length'') then None
      else Some
        (case parse_index prop of
           None \<Rightarrow> Returns (False, state)
         | Some idx \<Rightarrow>
             if idx \<ge> 0 then
               if idx < int (count (arr_vec state)) then
                 and_then (vecAssoc (arr_vec state) (arr_owner state) (nat idx) v)
                   (\<lambda>vec'. Returns (True, state\<lparr>arr_vec := vec', arr_modified := True,
                       arr_proxies := map_option (filter (\<lambda>e. fst e \<noteq> nat idx)) (arr_proxies state)\<rparr>))
               else if idx = int (count (arr_vec state)) then
                 Returns (True, state\<lparr>arr_vec := vecPush (arr_vec state) (arr_owner state) v,
                                      arr_modified := True\<rparr>)
               else Returns (False, state)
             else Returns (False, state)))"

section \<open>The map wrapper\<close>

definition map_size :: "hmap_state \<Rightarrow> int" where
  "map_size state = msize (map_hamt state)"

definition map_has :: "hmap_state \<Rightarrow> jsval \<Rightarrow> bool" where
  "map_has state k = hamtHas (map_hamt state) k"

text \<open>\<open>set(key, value)\<close>; the wrapper itself is what the call returns.\<close>

definition map_set :: "hmap_state \<Rightarrow> jsval \<Rightarrow> jsval \<Rightarrow> hmap_state outcome" where
  "map_set state k v =
     (let had = hamtHas (map_hamt state) k
      in and_then (of_option (hamtSet (map_hamt state) (map_owner state) k v))
           (\<lambda>m. and_then
              (case map_ordered state of
                 Some ord \<Rightarrow>
                   and_then (if had then orderUpdateValue ord (map_owner state) k v
                             else orderAppendWithValue ord (map_owner state) k v)
                     (\<lambda>ord'. Returns (Some ord'))
               | None \<Rightarrow> Returns None)
              (\<lambda>ordered. Returns (state\<lparr>map_hamt := m, map_ordered := ordered, map_modified := True,
                   map_valueProxies := map_option (\<lambda>p. native_delete p k) (map_valueProxies state)\<rparr>))))"

text \<open>\<open>delete(key)\<close>: returns whether the key was removed.\<close>

definition map_delete :: "hmap_state \<Rightarrow> jsval \<Rightarrow> (bool \<times> hmap_state) outcome" where
  "map_delete state k =
     (let before = msize (map_hamt state);
          m = hamtDelete (map_hamt state) (map_owner state) k;
          removed = (msize m \<noteq> before)
      in if removed then
           and_then
             (case map_ordered state of
                Some ord \<Rightarrow> and_then (orderDelete ord (map_owner state) k) (\<lambda>ord'. Returns (Some ord'))
              | None \<Rightarrow> Returns None)
             (\<lambda>ordered. Returns (True, state\<lparr>map_hamt := m, map_ordered := ordered, map_modified := True,
                  map_valueProxies := map_option (\<lambda>p. native_delete p k) (map_valueProxies state)\<rparr>))
         else Returns (False, state\<lparr>map_hamt := m\<rparr>))"

definition map_clear :: "hmap_state \<Rightarrow> hmap_state" where
  "map_clear state =
     (if msize (map_hamt state) = 0 then state
      else state\<lparr>map_hamt := hamtEmpty,
                 map_ordered := (case map_ordered state of Some ord \<Rightarrow> Some orderEmpty | None \<Rightarrow> None),
                 map_modified := True,
                 map_valueProxies := map_option (\<lambda>p. []) (map_valueProxies state)\<rparr>)"

text \<open>\<open>iterKeys\<close>, the keys in the order of the wrapper.\<close>

definition map_iterKeys :: "hmap_state \<Rightarrow> jsval list" where
  "map_iterKeys state =
     (case map_ordered state of
        Some ord \<Rightarrow> orderIter ord
      | None \<Rightarrow> map fst (hamtIter (map_hamt state)))"

text \<open>
  The entries that \<open>entries\<close>, \<open>values\<close> and \<open>forEach\<close> walk, before \<open>wrapValue\<close>: key and raw
  value.  With a value vector they come from the index, otherwise each key is looked up
  in the map.
\<close>

definition map_rawEntries :: "hmap_state \<Rightarrow> (jsval \<times> jsval slot) list" where
  "map_rawEntries state =
     (case map_ordered state of
        Some ord \<Rightarrow>
          (case idxToVal ord of
             Some vals \<Rightarrow> orderEntryIter ord
           | None \<Rightarrow> map (\<lambda>k. (k, Live (hamtGet (map_hamt state) k))) (map_iterKeys state))
      | None \<Rightarrow> map (\<lambda>k. (k, Live (hamtGet (map_hamt state) k))) (map_iterKeys state))"

section \<open>The set wrapper\<close>

definition set_size :: "hset_state \<Rightarrow> int" where
  "set_size state = msize (set_hamt state)"

definition set_has :: "hset_state \<Rightarrow> jsval \<Rightarrow> bool" where
  "set_has state v = hamtHas (set_hamt state) v"

definition set_add :: "hset_state \<Rightarrow> jsval \<Rightarrow> hset_state outcome" where
  "set_add state v =
     (let had = hamtHas (set_hamt state) v
      in and_then (of_option (hamtSet (set_hamt state) (set_owner state) v (VBool True)))
           (\<lambda>newMap.
              if \<not> hamtSet_same (set_hamt state) (set_owner state) v (VBool True) then
                if \<not> had then
                  and_then
                    (case set_ordered state of
                       Some ord \<Rightarrow> and_then (orderAppend ord (set_owner state) v) (\<lambda>ord'. Returns (Some ord'))
                     | None \<Rightarrow> Returns None)
                    (\<lambda>ordered. Returns (state\<lparr>set_hamt := newMap, set_ordered := ordered,
                                               set_modified := True\<rparr>))
                else Returns (state\<lparr>set_hamt := newMap\<rparr>)
              else Returns state))"

definition set_delete :: "hset_state \<Rightarrow> jsval \<Rightarrow> (bool \<times> hset_state) outcome" where
  "set_delete state v =
     (let before = msize (set_hamt state);
          m = hamtDelete (set_hamt state) (set_owner state) v;
          removed = (msize m \<noteq> before)
      in if removed then
           and_then
             (case set_ordered state of
                Some ord \<Rightarrow> and_then (orderDelete ord (set_owner state) v) (\<lambda>ord'. Returns (Some ord'))
              | None \<Rightarrow> Returns None)
             (\<lambda>ordered. Returns (True, state\<lparr>set_hamt := m, set_ordered := ordered, set_modified := True\<rparr>))
         else Returns (False, state\<lparr>set_hamt := m\<rparr>))"

definition set_clear :: "hset_state \<Rightarrow> hset_state" where
  "set_clear state =
     (if msize (set_hamt state) = 0 then state
      else state\<lparr>set_hamt := hamtEmpty,
                 set_ordered := (case set_ordered state of Some ord \<Rightarrow> Some orderEmpty | None \<Rightarrow> None),
                 set_modified := True\<rparr>)"

definition set_iterValues :: "hset_state \<Rightarrow> jsval list" where
  "set_iterValues state =
     (case set_ordered state of
        Some ord \<Rightarrow> orderIter ord
      | None \<Rightarrow> map fst (hamtIter (set_hamt state)))"

section \<open>The state of a wrapper that is not a draft\<close>

text \<open>
  The state \<open>pura\<close> gives a new wrapper and \<open>produce\<close> gives the wrapper it returns:
  \<open>isDraft: false, owner: undefined, modified: false\<close>.
\<close>

definition final_array_state :: "jsval vec \<Rightarrow> array_state" where
  "final_array_state v =
     \<lparr>arr_vec = v, arr_isDraft = False, arr_owner = None, arr_modified = False, arr_proxies = None\<rparr>"

definition final_map_state :: "hmap \<Rightarrow> order_index option \<Rightarrow> hmap_state" where
  "final_map_state m ordered =
     \<lparr>map_hamt = m, map_isDraft = False, map_owner = None, map_modified = False,
      map_valueProxies = None, map_ordered = ordered\<rparr>"

definition final_set_state :: "hmap \<Rightarrow> order_index option \<Rightarrow> hset_state" where
  "final_set_state m ordered =
     \<lparr>set_hamt = m, set_isDraft = False, set_owner = None, set_modified = False,
      set_ordered = ordered\<rparr>"

section \<open>Invariant and lookup of the HAMT\<close>

fun leaves :: "hchild \<Rightarrow> hleaf list" where
  "leaves (HLeaf l) = [l]"
| "leaves (HCollision es) = es"
| "leaves (HNode nowner b cs) = concat (map leaves cs)"

fun distinct_keys :: "hleaf list \<Rightarrow> bool" where
  "distinct_keys [] = True"
| "distinct_keys (e # es) = ((\<forall>e' \<in> set es. \<not> keyEquals (key e) (key e')) \<and> distinct_keys es)"

fun wf_node :: "nat \<Rightarrow> hchild \<Rightarrow> bool" where
  "wf_node s (HLeaf l) = (hash l = hashKey (key l))"
| "wf_node s (HCollision es) =
     (es \<noteq> [] \<and> (\<forall>e \<in> set es. hash e = hashKey (key e)) \<and> distinct_keys es)"
| "wf_node s (HNode nowner b cs) =
     (s < 32 \<and> length cs = popcount b \<and> (\<forall>c \<in> set cs. wf_node (s + BITS) c) \<and>
      (\<forall>i < 32. bit b i \<longrightarrow> (\<forall>l \<in> set (leaves (cs ! packed_index b i)). hash_index (hash l) s = i)))"

definition hamt_inv :: "hmap \<Rightarrow> bool" where
  "hamt_inv m = (case root m of None \<Rightarrow> True | Some r \<Rightarrow> wf_node 0 r)"

function hfind :: "hchild option \<Rightarrow> u32 \<Rightarrow> jsval \<Rightarrow> nat \<Rightarrow> hleaf option" where
  "hfind None h k shift = None"
| "hfind (Some (HLeaf leaf)) h k shift =
     (if hash leaf = h \<and> keyEquals (key leaf) k then Some leaf else None)"
| "hfind (Some (HCollision entries)) h k shift = find (\<lambda>leaf. keyEquals (key leaf) k) entries"
| "hfind (Some (HNode nowner bitmap children)) h k shift =
     (if bitmap AND bit_of (hash_index h shift) = 0 then None
      else hfind (array_get children (packed_index bitmap (hash_index h shift))) h k (shift + BITS))"
  by pat_completeness auto
termination
proof (relation "measure (\<lambda>(n, h, k, shift). case n of None \<Rightarrow> 0 | Some c \<Rightarrow> size c)")
  fix nowner :: owner and bitmap :: u32 and children :: "hchild list"
    and h :: u32 and k :: jsval and shift
  have "i < length children \<Longrightarrow> size (children ! i) \<le> size_list size children" for i
    by (rule size_list_estimation' [OF nth_mem]) auto
  then show "((array_get children (packed_index bitmap (hash_index h shift)), h, k, shift + BITS),
              Some (HNode nowner bitmap children), h, k, shift)
             \<in> measure (\<lambda>(n, h, k, shift). case n of None \<Rightarrow> 0 | Some c \<Rightarrow> size c)"
    by (auto simp: array_get_def less_Suc_eq_le)
qed simp

definition leaf_match :: "hleaf \<Rightarrow> u32 \<Rightarrow> jsval \<Rightarrow> bool" where
  "leaf_match l h k = (hash l = h \<and> keyEquals (key l) k)"

definition norm_key :: "jsval \<Rightarrow> jsval" where
  "norm_key k = (if k = VNum NegZero then VNum (Fin 0) else k)"

definition leaves_opt :: "hchild option \<Rightarrow> hleaf list" where
  "leaves_opt n = (case n of None \<Rightarrow> [] | Some c \<Rightarrow> leaves c)"

definition wf_opt :: "nat \<Rightarrow> hchild option \<Rightarrow> bool" where
  "wf_opt s n = (case n of None \<Rightarrow> True | Some c \<Rightarrow> wf_node s c)"

definition ins_ok :: "hchild option \<Rightarrow> u32 \<Rightarrow> jsval \<Rightarrow> jsval \<Rightarrow> nat \<Rightarrow> insert_result \<Rightarrow> bool" where
  "ins_ok n h k v s r \<longleftrightarrow>
     wf_node s (node r) \<and>
     set (leaves (node r)) \<subseteq> insert (Leaf k h v) (set (leaves_opt n)) \<and>
     (\<not> changed r \<longrightarrow> \<not> added r \<and> Some (node r) = n) \<and>
     (\<forall>k'. hfind (Some (node r)) (hashKey k') k' s =
        (if keyEquals k k' then (if changed r then Some (Leaf k h v) else hfind n h k s)
         else hfind n (hashKey k') k' s)) \<and>
     (changed r \<longleftrightarrow> (case hfind n h k s of None \<Rightarrow> True | Some l \<Rightarrow> \<not> strict_eq (val l) v)) \<and>
     (added r \<longleftrightarrow> hfind n h k s = None)"

definition rem_ok :: "hchild option \<Rightarrow> u32 \<Rightarrow> jsval \<Rightarrow> nat \<Rightarrow> remove_result \<Rightarrow> bool" where
  "rem_ok n h k s res \<longleftrightarrow>
     wf_opt s (rnode res) \<and>
     set (leaves_opt (rnode res)) \<subseteq> set (leaves_opt n) \<and>
     (removed res \<longleftrightarrow> hfind n h k s \<noteq> None) \<and>
     (\<not> removed res \<longrightarrow> rnode res = n) \<and>
     (\<forall>k'. hfind (rnode res) (hashKey k') k' s =
        (if keyEquals k k' then None else hfind n (hashKey k') k' s))"

definition lookup :: "hmap \<Rightarrow> jsval \<Rightarrow> hleaf option" where
  "lookup m k = hfind (root m) (hashKey k) k 0"

inductive hamt_reachable :: "hmap \<Rightarrow> bool" where
  reach_empty: "hamt_reachable hamtEmpty"
| reach_set: "hamt_reachable m \<Longrightarrow> hamtSet m ow k v = Some m' \<Longrightarrow> hamt_reachable m'"
| reach_delete: "hamt_reachable m \<Longrightarrow> hamt_reachable (hamtDelete m ow k)"

section \<open>The invariant of the insertion-order index\<close>

text \<open>
  \<open>next\<close> is the number of slots, \<open>holes\<close> the number of them that are \<open>DELETED\<close>; the value
  vector, if there is one, runs alongside the key vector; \<open>keyToIdx\<close> sends every live key
  to its own slot and holds nothing else.
\<close>

definition order_inv :: "order_index \<Rightarrow> bool" where
  "order_inv ord \<longleftrightarrow>
     hamt_inv (keyToIdx ord) \<and>
     next_slot ord = length (idxToKey ord) \<and>
     (case idxToVal ord of None \<Rightarrow> True | Some vals \<Rightarrow> length vals = length (idxToKey ord)) \<and>
     holes ord = length (filter (\<lambda>s. s = DELETED) (idxToKey ord)) \<and>
     (\<forall>i k. i < length (idxToKey ord) \<and> idxToKey ord ! i = Live k \<longrightarrow>
        hamtHas (keyToIdx ord) k \<and> hamtGet (keyToIdx ord) k = slot_number i) \<and>
     (\<forall>k. hamtHas (keyToIdx ord) k \<longrightarrow>
        (\<exists>i k'. i < length (idxToKey ord) \<and> idxToKey ord ! i = Live k' \<and> keyEquals k' k))"


text \<open>No two keys of the list are the same key.\<close>

fun keys_distinct :: "jsval list \<Rightarrow> bool" where
  "keys_distinct [] = True"
| "keys_distinct (k # ks) = ((\<forall>x\<in>set ks. \<not> keyEquals k x) \<and> keys_distinct ks)"

section \<open>Shape of a trie after removal, and example maps\<close>

text \<open>
  No branch of the trie has exactly one child that is a leaf or a collision node.
\<close>

fun no_single_leaf_branch :: "hchild \<Rightarrow> bool" where
  "no_single_leaf_branch (HNode nowner bitmap children) =
     (\<not> (length children = 1 \<and> \<not> is_HNode (children ! 0)) \<and>
      (\<forall>c \<in> set children. no_single_leaf_branch c))"
| "no_single_leaf_branch other = True"

text \<open>The map \<open>{true: 1}\<close>.\<close>

definition example_true :: hmap where
  "example_true = \<lparr>root = Some (HLeaf (Leaf (VBool True) 0x27d4eb2d (VNum (Fin 1)))), msize = 1\<rparr>"

text \<open>The map \<open>{true: +0}\<close>.\<close>

definition example_true_zero :: hmap where
  "example_true_zero = \<lparr>root = Some (HLeaf (Leaf (VBool True) 0x27d4eb2d (VNum (Fin 0)))), msize = 1\<rparr>"

text \<open>The map \<open>{-0: +0}\<close>.\<close>

definition example_zero_zero :: hmap where
  "example_zero_zero = \<lparr>root = Some (HLeaf (Leaf (VNum NegZero) 2462723854 (VNum (Fin 0)))), msize = 1\<rparr>"

text \<open>
  The map \<open>{5: 50, 8: 80}\<close>: the hashes of 5 and 8 have the same index at shift 0 and
  different ones at shift 5.
\<close>

definition example_pair :: hmap where
  "example_pair =
     \<lparr>root = Some (HNode None 2 [HNode None 20480
        [HLeaf (Leaf (VNum (Fin 8)) 3829098881 (VNum (Fin 80))),
         HLeaf (Leaf (VNum (Fin 5)) 1478832577 (VNum (Fin 50)))]]), msize = 2\<rparr>"


section \<open>Correctness of the HAMT operations\<close>

lemma bit_of_minus_1: "i < 32 \<Longrightarrow> bit_of i - 1 = (mask i :: u32)"
  by (simp add: bit_of_def mask_eq_exp_minus_1)

lemma bit_bit_of: "i < 32 \<Longrightarrow> bit (bit_of i) j = (j = i)"
  by (auto simp: bit_of_def bit_simps)

lemma has_slot_iff: "i < 32 \<Longrightarrow> (b AND bit_of i \<noteq> 0) = bit b i"
  by (simp add: and_exp_eq_0_iff_not_bit bit_of_def)

lemma popcount_card: "popcount b = card {i. bit b i}"
proof -
  have "{i. bit b i} = set (filter (bit b) [0..<32])"
    by (auto dest: bit_imp_le_length)
  then have "card {i. bit b i} = card (set (filter (bit b) [0..<32]))"
    by (simp only:)
  also have "\<dots> = length (filter (bit b) [0..<32])"
    by (rule distinct_card) simp
  finally show ?thesis
    by (simp add: popcount_def)
qed

lemma packed_index_card: "i < 32 \<Longrightarrow> packed_index b i = card {j. j < i \<and> bit b j}"
proof -
  assume "i < 32"
  then have "{j. bit (b AND (bit_of i - 1)) j} = {j. j < i \<and> bit b j}"
    by (auto simp: bit_of_minus_1 bit_simps)
  then show ?thesis
    by (simp add: packed_index_def popcount_card)
qed

lemma MASK_mask: "MASK = mask 5"
  by (simp add: MASK_def BRANCH_FACTOR_def BITS_def mask_eq_exp_minus_1)

lemma hash_index_less: "hash_index h s < 32"
proof -
  have "unat (take_bit 5 (drop_bit (s mod 32) h)) < 2 ^ 5"
    unfolding unsigned_take_bit_eq by (rule take_bit_nat_less_exp)
  then show ?thesis
    by (simp add: hash_index_def MASK_mask flip: take_bit_eq_mask)
qed

lemma finite_bits: "finite {i. bit (b::u32) i}"
  by simp

lemma finite_bits_below: "finite {j. j < i \<and> bit (b::u32) j}"
  by simp

lemma packed_index_less: "i < 32 \<Longrightarrow> bit b i \<Longrightarrow> packed_index b i < popcount b"
proof -
  assume i: "i < 32" "bit b i"
  then have "{j. j < i \<and> bit b j} \<subset> {j. bit b j}"
    by auto
  then have "card {j. j < i \<and> bit b j} < card {j. bit b j}"
    by (rule psubset_card_mono [OF finite_bits])
  with i show ?thesis
    by (simp add: packed_index_card popcount_card)
qed

lemma packed_index_mono: "i < j \<Longrightarrow> j < 32 \<Longrightarrow> bit b i \<Longrightarrow> packed_index b i < packed_index b j"
proof -
  assume i: "i < j" "j < 32" "bit b i"
  then have "{k. k < i \<and> bit b k} \<subset> {k. k < j \<and> bit b k}"
    by auto
  then have "card {k. k < i \<and> bit b k} < card {k. k < j \<and> bit b k}"
    by (rule psubset_card_mono [OF finite_bits_below])
  with i show ?thesis
    by (simp add: packed_index_card)
qed

lemma packed_index_mono_le: "i \<le> j \<Longrightarrow> j < 32 \<Longrightarrow> packed_index b i \<le> packed_index b j"
proof -
  assume i: "i \<le> j" "j < 32"
  then have "{k. k < i \<and> bit b k} \<subseteq> {k. k < j \<and> bit b k}"
    by auto
  then have "card {k. k < i \<and> bit b k} \<le> card {k. k < j \<and> bit b k}"
    by (rule card_mono [OF finite_bits_below])
  with i show ?thesis
    by (simp add: packed_index_card)
qed

lemma packed_index_inj:
  "i < 32 \<Longrightarrow> j < 32 \<Longrightarrow> bit b i \<Longrightarrow> bit b j \<Longrightarrow> packed_index b i = packed_index b j \<Longrightarrow> i = j"
  using packed_index_mono [of i j b] packed_index_mono [of j i b]
  by (cases i j rule: linorder_cases) auto

lemma bit_OR_bit_of: "i < 32 \<Longrightarrow> bit (b OR bit_of i) j = (bit b j \<or> j = i)"
  by (auto simp: bit_simps bit_bit_of)

lemma bit_XOR_bit_of: "i < 32 \<Longrightarrow> bit b i \<Longrightarrow> bit (b XOR bit_of i) j = (bit b j \<and> j \<noteq> i)"
  by (auto simp: bit_simps bit_bit_of)

lemma popcount_OR: "i < 32 \<Longrightarrow> \<not> bit b i \<Longrightarrow> popcount (b OR bit_of i) = Suc (popcount b)"
proof -
  assume i: "i < 32" "\<not> bit b i"
  then have "{j. bit (b OR bit_of i) j} = insert i {j. bit b j}"
    by (auto simp: bit_OR_bit_of)
  with i show ?thesis
    by (simp add: popcount_card)
qed

lemma popcount_XOR: "i < 32 \<Longrightarrow> bit b i \<Longrightarrow> popcount (b XOR bit_of i) = popcount b - 1"
proof -
  assume i: "i < 32" "bit b i"
  then have "{j. bit (b XOR bit_of i) j} = {j. bit b j} - {i}"
    by (auto simp: bit_XOR_bit_of)
  with i show ?thesis
    by (simp add: popcount_card)
qed

lemma packed_index_OR: "i < 32 \<Longrightarrow> j < 32 \<Longrightarrow> \<not> bit b i \<Longrightarrow>
  packed_index (b OR bit_of i) j = packed_index b j + (if i < j then 1 else 0)"
proof -
  assume i: "i < 32" "j < 32" "\<not> bit b i"
  then have "{k. k < j \<and> bit (b OR bit_of i) k} =
      (if i < j then insert i {k. k < j \<and> bit b k} else {k. k < j \<and> bit b k})"
    by (auto simp: bit_OR_bit_of)
  with i show ?thesis
    by (simp add: packed_index_card)
qed

lemma packed_index_XOR: "i < 32 \<Longrightarrow> j < 32 \<Longrightarrow> bit b i \<Longrightarrow>
  packed_index (b XOR bit_of i) j = packed_index b j - (if i < j then 1 else 0)"
proof -
  assume i: "i < 32" "j < 32" "bit b i"
  then have "{k. k < j \<and> bit (b XOR bit_of i) k} =
      (if i < j then {k. k < j \<and> bit b k} - {i} else {k. k < j \<and> bit b k})"
    by (auto simp: bit_XOR_bit_of)
  with i show ?thesis
    by (simp add: packed_index_card)
qed

lemma hamtGet_loop_hfind:
  "hamtGet_loop n h k s = (case hfind n h k s of Some l \<Rightarrow> val l | None \<Rightarrow> VUndefined)"
  by (induction n h k s rule: hamtGet_loop.induct) (auto simp: Let_def)

lemma hamtHas_loop_hfind:
  "hamtHas_loop n h k s = (hfind n h k s \<noteq> None)"
  by (induction n h k s rule: hamtHas_loop.induct) (auto simp: Let_def split: option.splits)

lemma keyEquals_refl: "keyEquals a a"
  by (simp add: keyEquals_def object_is_def)

lemma keyEquals_sym: "keyEquals a b \<Longrightarrow> keyEquals b a"
  by (auto simp: keyEquals_def object_is_def split: if_splits)

lemma keyEquals_trans: "keyEquals a b \<Longrightarrow> keyEquals b c \<Longrightarrow> keyEquals a c"
  by (auto simp: keyEquals_def object_is_def split: if_splits)

lemma is_zero_cases: "is_zero a \<Longrightarrow> a = VNum (Fin 0) \<or> a = VNum NegZero"
  by (cases a rule: is_zero.cases) auto

lemma keyEquals_hashKey: "keyEquals a b \<Longrightarrow> hashKey a = hashKey b"
  by (auto simp: keyEquals_def object_is_def split: if_splits dest!: is_zero_cases)

lemma keyEquals_left_cong: "keyEquals a b \<Longrightarrow> keyEquals a c = keyEquals b c"
  by (meson keyEquals_sym keyEquals_trans)

lemma keyEquals_right_cong: "keyEquals a b \<Longrightarrow> keyEquals c a = keyEquals c b"
  by (meson keyEquals_sym keyEquals_trans)

lemma hfind_cong: "keyEquals k k' \<Longrightarrow> hfind n h k s = hfind n h k' s"
  by (induction n h k s rule: hfind.induct) (auto simp: keyEquals_right_cong cong: find_cong)

lemma hamtGet_hfind:
  "hamt_inv m \<Longrightarrow>
   hamtGet m k = (case hfind (root m) (hashKey k) k 0 of Some l \<Rightarrow> val l | None \<Rightarrow> VUndefined)"
  by (auto simp: hamtGet_def hamt_inv_def hamtGet_loop_hfind dest: keyEquals_hashKey
      split: option.splits hchild.splits)

lemma hamtHas_hfind:
  "hamt_inv m \<Longrightarrow> hamtHas m k = (hfind (root m) (hashKey k) k 0 \<noteq> None)"
  by (auto simp: hamtHas_def hamt_inv_def hamtHas_loop_hfind dest: keyEquals_hashKey
      split: option.splits hchild.splits)

lemma hash_index_take_bit:
  "hash_index h s = unat (take_bit 5 (drop_bit (s mod 32) h))"
  by (simp add: hash_index_def MASK_mask take_bit_eq_mask)

lemma all_less_add_split:
  "(\<forall>i. i < s + n \<longrightarrow> P i) \<longleftrightarrow> (\<forall>i. i < s \<longrightarrow> P i) \<and> (\<forall>i. i < n \<longrightarrow> P (s + i))"
  for s n :: nat
proof (intro iffI conjI allI impI)
  fix i assume a: "(\<forall>i. i < s \<longrightarrow> P i) \<and> (\<forall>i. i < n \<longrightarrow> P (s + i))" and i: "i < s + n"
  show "P i"
  proof (cases "i < s")
    case True with a show ?thesis by simp
  next
    case False
    with i have "i - s < n" by simp
    with a have "P (s + (i - s))" by blast
    with False show ?thesis by simp
  qed
qed auto

lemma take_bit_eq_iff_bits:
  "take_bit n (a::u32) = take_bit n b \<longleftrightarrow> (\<forall>i. i < n \<longrightarrow> bit a i = bit b i)"
proof
  assume "take_bit n a = take_bit n b"
  then show "\<forall>i. i < n \<longrightarrow> bit a i = bit b i"
    by (metis bit_take_bit_iff)
next
  assume "\<forall>i. i < n \<longrightarrow> bit a i = bit b i"
  then show "take_bit n a = take_bit n b"
    by (intro bit_eqI) (auto simp: bit_take_bit_iff)
qed

lemma take_bit_step:
  assumes "s < 32"
  shows "take_bit (s + BITS) (x::u32) = take_bit (s + BITS) y \<longleftrightarrow>
         take_bit s x = take_bit s y \<and> hash_index x s = hash_index y s"
proof -
  have "hash_index x s = hash_index y s \<longleftrightarrow>
        take_bit 5 (drop_bit s x) = take_bit 5 (drop_bit s y)"
    using assms by (simp add: hash_index_take_bit word_unat_eq_iff)
  also have "\<dots> \<longleftrightarrow> (\<forall>i. i < 5 \<longrightarrow> bit x (s + i) = bit y (s + i))"
    by (simp add: take_bit_eq_iff_bits bit_drop_bit_eq)
  finally show ?thesis
    by (simp add: take_bit_eq_iff_bits BITS_def all_less_add_split [of s 5])
qed

lemma popcount_bit_of: "i < 32 \<Longrightarrow> popcount (bit_of i) = 1"
  by (simp add: popcount_card bit_bit_of)

lemma packed_index_bit_of: "i < 32 \<Longrightarrow> j < 32 \<Longrightarrow> packed_index (bit_of i) j = (if i < j then 1 else 0)"
proof -
  assume "i < 32" "j < 32"
  moreover have "{k. k < j \<and> k = i} = (if i < j then {i} else {})"
    by auto
  ultimately show ?thesis
    by (simp add: packed_index_card bit_bit_of)
qed

lemma bit_of_neq_0: "i < 32 \<Longrightarrow> bit_of i \<noteq> 0"
  using bit_bit_of [of i i] by auto

lemma AND_bit_of_eq_0: "i < 32 \<Longrightarrow> (b AND bit_of i = 0) = (\<not> bit b i)"
  using has_slot_iff by blast

lemma hfind_leaf:
  "hfind (Some (HLeaf l)) h k s = (if leaf_match l h k then Some l else None)"
  by (simp add: leaf_match_def)

lemma mergeLeaves_Some:
  assumes "hash l1 \<noteq> hash l2" and "take_bit s (hash l1) = take_bit s (hash l2)"
  shows "\<exists>n. mergeLeaves l1 l2 ow s = Some n \<and> set (leaves n) = {l1, l2} \<and>
           (hash l1 = hashKey (key l1) \<longrightarrow> hash l2 = hashKey (key l2) \<longrightarrow> wf_node s n) \<and>
           (\<forall>h k. hfind (Some n) h k s =
              (if leaf_match l1 h k then Some l1 else if leaf_match l2 h k then Some l2 else None))"
  using assms
proof (induction "32 - s" arbitrary: s rule: less_induct)
  case less
  have s: "s < 32"
  proof (rule ccontr)
    assume "\<not> s < 32"
    then have "take_bit s (hash l1) = hash l1" "take_bit s (hash l2) = hash l2"
      by (simp_all add: take_bit_word_eq_self)
    with less.prems show False by simp
  qed
  let ?i1 = "hash_index (hash l1) s" and ?i2 = "hash_index (hash l2) s"
  have i: "?i1 < 32" "?i2 < 32" by (rule hash_index_less)+
  show ?case
  proof (cases "?i1 = ?i2")
    case True
    with less.prems s have tb: "take_bit (s + BITS) (hash l1) = take_bit (s + BITS) (hash l2)"
      by (simp add: take_bit_step)
    have s5: "s + BITS < 32"
    proof (rule ccontr)
      assume "\<not> s + BITS < 32"
      then have "take_bit (s + BITS) (hash l1) = hash l1" "take_bit (s + BITS) (hash l2) = hash l2"
        by (simp_all add: take_bit_word_eq_self)
      with tb less.prems show False by simp
    qed
    then have "32 - (s + BITS) < 32 - s" by (simp add: BITS_def)
    from less.hyps [OF this less.prems(1) tb]
    obtain n where n: "mergeLeaves l1 l2 ow (s + BITS) = Some n" "set (leaves n) = {l1, l2}"
      "hash l1 = hashKey (key l1) \<longrightarrow> hash l2 = hashKey (key l2) \<longrightarrow> wf_node (s + BITS) n"
      "\<forall>h k. hfind (Some n) h k (s + BITS) =
              (if leaf_match l1 h k then Some l1 else if leaf_match l2 h k then Some l2 else None)"
      by blast
    have m: "mergeLeaves l1 l2 ow s = Some (HNode ow (bit_of ?i1) [n])"
      by (subst mergeLeaves.simps) (simp add: True n)
    have "hfind (Some (HNode ow (bit_of ?i1) [n])) h k s =
              (if leaf_match l1 h k then Some l1 else if leaf_match l2 h k then Some l2 else None)" for h k
    proof (cases "hash_index h s = ?i1")
      case eq: True
      then show ?thesis using i n(4)
        by (simp add: AND_bit_of_eq_0 bit_bit_of packed_index_bit_of array_get_def bit_of_neq_0)
    next
      case False
      then have "\<not> leaf_match l1 h k" "\<not> leaf_match l2 h k"
        using True by (auto simp: leaf_match_def)
      with False show ?thesis using i hash_index_less [of h s]
        by (simp add: AND_bit_of_eq_0 bit_bit_of bit_of_neq_0)
    qed
    moreover have "hash l1 = hashKey (key l1) \<longrightarrow> hash l2 = hashKey (key l2) \<longrightarrow>
      wf_node s (HNode ow (bit_of ?i1) [n])"
      using s i n True by (auto simp: popcount_bit_of bit_bit_of packed_index_bit_of)
    ultimately show ?thesis
      using m n(2) by simp
  next
    case False
    let ?n = "HNode ow (bit_of ?i1 OR bit_of ?i2)
                   (if ?i1 < ?i2 then [HLeaf l1, HLeaf l2] else [HLeaf l2, HLeaf l1])"
    have m: "mergeLeaves l1 l2 ow s = Some ?n"
      by (subst mergeLeaves.simps) (simp add: False Let_def)
    have pc: "popcount (bit_of ?i1 OR bit_of ?i2) = 2"
      using i False by (simp add: popcount_OR bit_bit_of popcount_bit_of)
    have pi: "packed_index (bit_of ?i1 OR bit_of ?i2) j =
        (if ?i1 < j then 1 else 0) + (if ?i2 < j then 1 else 0)" if "j < 32" for j
      using i False that by (simp add: packed_index_OR bit_bit_of packed_index_bit_of)
    have "hfind (Some ?n) h k s =
              (if leaf_match l1 h k then Some l1 else if leaf_match l2 h k then Some l2 else None)" for h k
    proof -
      consider "hash_index h s = ?i1" | "hash_index h s = ?i2" | "hash_index h s \<noteq> ?i1" "hash_index h s \<noteq> ?i2"
        by blast
      then show ?thesis
      proof cases
        case 1
        then have "\<not> leaf_match l2 h k" using False by (auto simp: leaf_match_def)
        then show ?thesis using 1 i False
          by (simp add: AND_bit_of_eq_0 bit_OR_bit_of pi array_get_def hfind_leaf bit_of_neq_0 del: hfind.simps(2))
      next
        case 2
        then have "\<not> leaf_match l1 h k" using False by (auto simp: leaf_match_def)
        then show ?thesis using 2 i False
          by (simp add: AND_bit_of_eq_0 bit_OR_bit_of pi array_get_def hfind_leaf bit_of_neq_0 del: hfind.simps(2))
      next
        case 3
        then have "\<not> leaf_match l1 h k" "\<not> leaf_match l2 h k"
          by (auto simp: leaf_match_def)
        then show ?thesis using 3 i hash_index_less [of h s]
          by (simp add: AND_bit_of_eq_0 bit_OR_bit_of bit_bit_of bit_of_neq_0)
      qed
    qed
    moreover have "hash l1 = hashKey (key l1) \<longrightarrow> hash l2 = hashKey (key l2) \<longrightarrow> wf_node s ?n"
    proof (intro impI)
      assume hk: "hash l1 = hashKey (key l1)" "hash l2 = hashKey (key l2)"
      let ?b = "bit_of ?i1 OR bit_of ?i2"
      let ?cs = "if ?i1 < ?i2 then [HLeaf l1, HLeaf l2] else [HLeaf l2, HLeaf l1]"
      have "\<forall>j<32. bit ?b j \<longrightarrow> (\<forall>l \<in> set (leaves (?cs ! packed_index ?b j)). hash_index (hash l) s = j)"
        using i False by (auto simp: pi bit_OR_bit_of bit_bit_of)
      moreover have "length ?cs = popcount ?b"
        by (simp add: pc)
      moreover have "\<forall>c \<in> set ?cs. wf_node (s + BITS) c"
        using hk by auto
      ultimately show "wf_node s ?n"
        unfolding wf_node.simps using s by blast
    qed
    moreover have "set (leaves ?n) = {l1, l2}"
      by auto
    ultimately show ?thesis
      using m by simp
  qed
qed

lemma length_splice_in: "length (splice_in cs p x) = Suc (length cs)"
  by (simp add: splice_in_def)

lemma set_splice_in: "set (splice_in cs p x) = insert x (set cs)"
proof -
  have "set (take p cs) \<union> set (drop p cs) = set cs"
    by (metis append_take_drop_id set_append)
  then show ?thesis by (auto simp: splice_in_def)
qed

lemma nth_splice_in:
  "p \<le> length cs \<Longrightarrow> splice_in cs p x ! q = (if q < p then cs ! q else if q = p then x else cs ! (q - 1))"
proof -
  assume p: "p \<le> length cs"
  consider "q < p" | "q = p" | "p < q" by linarith
  then show ?thesis
  proof cases
    case 1
    with p show ?thesis by (simp add: splice_in_def nth_append)
  next
    case 2
    with p show ?thesis by (simp add: splice_in_def nth_append)
  next
    case 3
    then obtain d where d: "q = Suc (p + d)"
      using less_iff_Suc_add by auto
    with p show ?thesis by (simp add: splice_in_def nth_append)
  qed
qed

lemma length_splice_out: "p < length cs \<Longrightarrow> length (splice_out cs p) = length cs - 1"
  by (simp add: splice_out_def)

lemma set_splice_out: "set (splice_out cs p) \<subseteq> set cs"
  by (auto simp: splice_out_def dest: in_set_takeD in_set_dropD)

lemma nth_splice_out:
  "p < length cs \<Longrightarrow> q < length cs - 1 \<Longrightarrow> splice_out cs p ! q = (if q < p then cs ! q else cs ! Suc q)"
  by (auto simp: splice_out_def nth_append min_def)

lemma packed_index_le_popcount: "i < 32 \<Longrightarrow> packed_index b i \<le> popcount b"
proof -
  assume i: "i < 32"
  have "{j. j < i \<and> bit b j} \<subseteq> {j. bit b j}"
    by auto
  then have "card {j. j < i \<and> bit b j} \<le> card {j. bit b j}"
    by (rule card_mono [OF finite_bits])
  with i show ?thesis
    by (simp add: packed_index_card popcount_card)
qed

lemma slot_insert:
  assumes "i < 32" "idx < 32" "\<not> bit b idx" "length cs = popcount b" "i = idx \<or> bit b i"
  shows "splice_in cs (packed_index b idx) x ! packed_index (b OR bit_of idx) i =
         (if i = idx then x else cs ! packed_index b i)"
proof -
  have p: "packed_index b idx \<le> length cs"
    using assms by (simp add: packed_index_le_popcount)
  consider "i = idx" | "idx < i" "bit b i" | "i < idx" "bit b i"
    using assms by force
  then show ?thesis
  proof cases
    case 1
    with assms p show ?thesis by (simp add: packed_index_OR nth_splice_in)
  next
    case 2
    then have "packed_index b idx \<le> packed_index b i"
      using assms by (simp add: packed_index_mono_le)
    with 2 assms p show ?thesis by (simp add: packed_index_OR nth_splice_in)
  next
    case 3
    then have "packed_index b i < packed_index b idx"
      using assms by (simp add: packed_index_mono)
    with 3 assms p show ?thesis by (simp add: packed_index_OR nth_splice_in)
  qed
qed

lemma slot_remove:
  assumes "i < 32" "idx < 32" "bit b idx" "length cs = popcount b" "i \<noteq> idx" "bit b i"
  shows "splice_out cs (packed_index b idx) ! packed_index (b XOR bit_of idx) i = cs ! packed_index b i"
proof -
  have p: "packed_index b idx < length cs" "packed_index b i < length cs"
    using assms by (simp_all add: packed_index_less)
  consider "idx < i" | "i < idx"
    using assms by force
  then show ?thesis
  proof cases
    case 1
    then have lt: "packed_index b idx < packed_index b i"
      using assms by (simp add: packed_index_mono)
    then have "\<not> packed_index b i - 1 < packed_index b idx"
      and "Suc (packed_index b i - 1) = packed_index b i"
      and "packed_index b i - 1 < length cs - 1"
      using p by linarith+
    with 1 assms p show ?thesis by (simp add: packed_index_XOR nth_splice_out)
  next
    case 2
    then have "packed_index b i < packed_index b idx"
      using assms by (simp add: packed_index_mono)
    with 2 assms p show ?thesis by (simp add: packed_index_XOR nth_splice_out)
  qed
qed

lemma slot_update:
  assumes "i < 32" "idx < 32" "bit b idx" "length cs = popcount b" "bit b i"
  shows "array_set cs (packed_index b idx) x ! packed_index b i =
         (if i = idx then x else cs ! packed_index b i)"
proof -
  have p: "packed_index b idx < length cs"
    using assms by (simp add: packed_index_less)
  have "i \<noteq> idx \<Longrightarrow> packed_index b i \<noteq> packed_index b idx"
    using assms packed_index_inj by blast
  with p show ?thesis
    by (auto simp: array_set_def)
qed

lemma find_entry_Some:
  "find_entry es k i = Some j \<Longrightarrow>
   i \<le> j \<and> j - i < length es \<and> keyEquals (key (es ! (j - i))) k \<and>
   (\<forall>m < j - i. \<not> keyEquals (key (es ! m)) k) \<and>
   find (\<lambda>l. keyEquals (key l) k) es = Some (es ! (j - i))"
proof (induction es k i rule: find_entry.induct)
  case (1 k i)
  then show ?case by simp
next
  case (2 e es k i)
  show ?case
  proof (cases "keyEquals (key e) k")
    case True
    with 2 show ?thesis by simp
  next
    case False
    with 2 have ih: "Suc i \<le> j \<and> j - Suc i < length es \<and> keyEquals (key (es ! (j - Suc i))) k \<and>
      (\<forall>m < j - Suc i. \<not> keyEquals (key (es ! m)) k) \<and>
      find (\<lambda>l. keyEquals (key l) k) es = Some (es ! (j - Suc i))"
      by simp
    then have "j - i = Suc (j - Suc i)" by auto
    with ih False show ?thesis
      by (auto simp: nth_Cons split: nat.splits)
  qed
qed

lemma find_entry_None:
  "find_entry es k i = None \<longleftrightarrow> (\<forall>e \<in> set es. \<not> keyEquals (key e) k)"
  by (induction es k i rule: find_entry.induct) auto

lemma find_None_iff_keys:
  "find (\<lambda>l. keyEquals (key l) k) es = None \<longleftrightarrow> (\<forall>e \<in> set es. \<not> keyEquals (key e) k)"
  by (auto simp: find_None_iff)

lemma keyEquals_norm: "keyEquals a b \<longleftrightarrow> norm_key a = norm_key b"
  by (auto simp: keyEquals_def object_is_def norm_key_def dest!: is_zero_cases)

lemma distinct_keys_norm: "distinct_keys es \<longleftrightarrow> distinct (map (\<lambda>e. norm_key (key e)) es)"
  by (induction es) (auto simp: keyEquals_norm)

lemma distinct_keys_update:
  assumes "distinct_keys es" "i < length es" "keyEquals (key (es ! i)) k"
  shows "distinct_keys (es[i := Leaf k h v])"
proof -
  have "map (\<lambda>e. norm_key (key e)) (es[i := Leaf k h v]) = map (\<lambda>e. norm_key (key e)) es"
    using assms by (simp add: map_update keyEquals_norm list_update_same_conv)
  with assms show ?thesis by (simp add: distinct_keys_norm)
qed

lemma distinct_keys_append:
  assumes "distinct_keys es" "\<forall>e \<in> set es. \<not> keyEquals (key e) k"
  shows "distinct_keys (es @ [Leaf k h v])"
  using assms by (auto simp: distinct_keys_norm keyEquals_norm)

lemma distinct_keys_splice_out:
  assumes "distinct_keys es"
  shows "distinct_keys (splice_out es i)"
proof -
  let ?m = "map (\<lambda>e. norm_key (key e)) es"
  have "distinct (take i ?m @ drop (Suc i) ?m)"
    using assms set_take_disj_set_drop_if_distinct [of ?m i "Suc i"]
    by (simp add: distinct_keys_norm)
  then show ?thesis
    by (simp add: distinct_keys_norm splice_out_def take_map drop_map)
qed

lemma find_update_hit:
  "i < length es \<Longrightarrow> (\<forall>m < i. \<not> P (es ! m)) \<Longrightarrow> P x \<Longrightarrow> find P (es[i := x]) = Some x"
proof (induction es arbitrary: i)
  case Nil
  then show ?case by simp
next
  case (Cons e es)
  show ?case
  proof (cases i)
    case 0
    with Cons.prems show ?thesis by simp
  next
    case (Suc i')
    with Cons.prems have "\<not> P e" "\<forall>m < i'. \<not> P (es ! m)" by auto
    with Cons Suc show ?thesis by simp
  qed
qed

lemma find_update_miss:
  "i < length es \<Longrightarrow> \<not> P (es ! i) \<Longrightarrow> \<not> P x \<Longrightarrow> find P (es[i := x]) = find P es"
proof (induction es arbitrary: i)
  case Nil
  then show ?case by simp
next
  case (Cons e es)
  then show ?case by (cases i) auto
qed

lemma find_append_single:
  "find P (es @ [x]) = (case find P es of Some y \<Rightarrow> Some y | None \<Rightarrow> if P x then Some x else None)"
  by (induction es) auto

lemma find_splice_out_miss:
  "i < length es \<Longrightarrow> \<not> P (es ! i) \<Longrightarrow> find P (splice_out es i) = find P es"
proof (induction es arbitrary: i)
  case Nil
  then show ?case by simp
next
  case (Cons e es)
  then show ?case by (cases i) (auto simp: splice_out_def)
qed

lemma find_splice_out_hit:
  assumes "distinct_keys es" "i < length es" "keyEquals (key (es ! i)) k"
  shows "find (\<lambda>l. keyEquals (key l) k) (splice_out es i) = None"
proof -
  have "\<not> keyEquals (key e) k" if "e \<in> set (splice_out es i)" for e
  proof
    assume ke: "keyEquals (key e) k"
    from that have "e \<in> set (take i es) \<or> e \<in> set (drop (Suc i) es)"
      by (simp add: splice_out_def)
    then have "\<exists>j. j < length es \<and> j \<noteq> i \<and> e = es ! j"
    proof
      assume "e \<in> set (take i es)"
      then obtain m where "m < length (take i es)" "take i es ! m = e"
        by (auto simp: in_set_conv_nth)
      then have "m < length es \<and> m \<noteq> i \<and> e = es ! m" by auto
      then show ?thesis by blast
    next
      assume "e \<in> set (drop (Suc i) es)"
      then obtain m where "m < length (drop (Suc i) es)" "drop (Suc i) es ! m = e"
        by (auto simp: in_set_conv_nth)
      then have "Suc i + m < length es \<and> Suc i + m \<noteq> i \<and> e = es ! (Suc i + m)" by auto
      then show ?thesis by blast
    qed
    then obtain j where j: "j < length es" "j \<noteq> i" "e = es ! j"
      by blast
    with assms ke have "norm_key (key (es ! j)) = norm_key (key (es ! i))"
      by (simp add: keyEquals_norm)
    with assms j show False
      by (simp add: distinct_keys_norm distinct_conv_nth)
  qed
  then show ?thesis by (auto simp: find_None_iff)
qed

lemma leaf_match_cong: "keyEquals k k' \<Longrightarrow> leaf_match l (hashKey k) k = leaf_match l (hashKey k') k'"
  by (simp add: leaf_match_def keyEquals_hashKey keyEquals_right_cong)

lemma insert_none:
  "\<exists>r. hamtInsert None ow (hashKey k) k v s = Some r \<and> ins_ok None (hashKey k) k v s r"
proof -
  have "hfind (Some (HLeaf (Leaf k (hashKey k) v))) (hashKey k') k' s =
        (if keyEquals k k' then Some (Leaf k (hashKey k) v) else None)" for k'
    using keyEquals_hashKey [of k k'] by auto
  then have "ins_ok None (hashKey k) k v s \<lparr>node = HLeaf (Leaf k (hashKey k) v), added = True, changed = True\<rparr>"
    unfolding ins_ok_def by (simp add: leaves_opt_def del: hfind.simps(2))
  then show ?thesis by simp
qed

lemma insert_leaf:
  assumes wf: "hash leaf = hashKey (key leaf)"
    and ag: "take_bit s (hash leaf) = take_bit s (hashKey k)"
  shows "\<exists>r. hamtInsert (Some (HLeaf leaf)) ow (hashKey k) k v s = Some r \<and>
             ins_ok (Some (HLeaf leaf)) (hashKey k) k v s r"
proof -
  let ?h = "hashKey k"
  let ?new = "Leaf k ?h v"
  have new_match: "leaf_match ?new (hashKey k') k' = keyEquals k k'" for k'
    using keyEquals_hashKey [of k k'] by (auto simp: leaf_match_def)
  have old_self: "hfind (Some (HLeaf leaf)) ?h k s = (if leaf_match leaf ?h k then Some leaf else None)"
    by (rule hfind_leaf)
  consider (same) "leaf_match leaf ?h k" "strict_eq (val leaf) v"
    | (repl) "leaf_match leaf ?h k" "\<not> strict_eq (val leaf) v"
    | (coll) "hash leaf = ?h" "\<not> keyEquals (key leaf) k"
    | (split) "hash leaf \<noteq> ?h"
    unfolding leaf_match_def by blast
  then show ?thesis
  proof cases
    case same
    then have r: "hamtInsert (Some (HLeaf leaf)) ow ?h k v s =
        Some \<lparr>node = HLeaf leaf, added = False, changed = False\<rparr>"
      by (simp add: leaf_match_def)
    have "leaf_match leaf (hashKey k') k' = leaf_match leaf ?h k" if "keyEquals k k'" for k'
      using leaf_match_cong [OF that] by simp
    then have "ins_ok (Some (HLeaf leaf)) ?h k v s \<lparr>node = HLeaf leaf, added = False, changed = False\<rparr>"
      unfolding ins_ok_def using same wf
      by (simp add: leaves_opt_def hfind_leaf del: hfind.simps(2))
    with r show ?thesis by blast
  next
    case repl
    then have r: "hamtInsert (Some (HLeaf leaf)) ow ?h k v s =
        Some \<lparr>node = HLeaf ?new, added = False, changed = True\<rparr>"
      by (simp add: leaf_match_def)
    have "\<not> leaf_match leaf (hashKey k') k'" if "\<not> keyEquals k k'" for k'
      using that repl(1) keyEquals_trans keyEquals_sym unfolding leaf_match_def by blast
    then have "ins_ok (Some (HLeaf leaf)) ?h k v s \<lparr>node = HLeaf ?new, added = False, changed = True\<rparr>"
      unfolding ins_ok_def using repl new_match
      by (simp add: leaves_opt_def hfind_leaf del: hfind.simps(2))
    with r show ?thesis by blast
  next
    case coll
    then have r: "hamtInsert (Some (HLeaf leaf)) ow ?h k v s =
        Some \<lparr>node = HCollision [leaf, ?new], added = True, changed = True\<rparr>"
      by simp
    have a: "\<not> keyEquals (key leaf) k'" if "keyEquals k k'" for k'
      using that coll keyEquals_trans keyEquals_sym by blast
    have b: "leaf_match leaf (hashKey k') k' = keyEquals (key leaf) k'" for k'
      using wf keyEquals_hashKey [of "key leaf" k'] by (auto simp: leaf_match_def)
    have c: "\<not> leaf_match leaf ?h k"
      using coll by (simp add: leaf_match_def)
    have "ins_ok (Some (HLeaf leaf)) ?h k v s \<lparr>node = HCollision [leaf, ?new], added = True, changed = True\<rparr>"
      unfolding ins_ok_def using coll(2) wf a b c
      by (simp add: leaves_opt_def hfind_leaf del: hfind.simps(2))
    with r show ?thesis by blast
  next
    case split
    from mergeLeaves_Some [of leaf ?new s ow] split ag wf
    obtain n where n: "mergeLeaves leaf ?new ow s = Some n"
      "set (leaves n) = {leaf, ?new}" "wf_node s n"
      "\<forall>h' k'. hfind (Some n) h' k' s =
              (if leaf_match leaf h' k' then Some leaf
               else if leaf_match ?new h' k' then Some ?new else None)"
      by auto
    have r: "hamtInsert (Some (HLeaf leaf)) ow ?h k v s = Some \<lparr>node = n, added = True, changed = True\<rparr>"
      using split n(1) by simp
    have a: "\<not> leaf_match leaf (hashKey k') k'" if "keyEquals k k'" for k'
      using that split keyEquals_hashKey [of k k'] by (auto simp: leaf_match_def)
    have c: "\<not> leaf_match leaf ?h k"
      using split by (simp add: leaf_match_def)
    have "ins_ok (Some (HLeaf leaf)) ?h k v s \<lparr>node = n, added = True, changed = True\<rparr>"
      unfolding ins_ok_def using n(2,3,4) a c new_match
      by (simp add: leaves_opt_def hfind_leaf del: hfind.simps(2))
    with r show ?thesis by blast
  qed
qed

lemma insert_collision:
  assumes wf: "wf_node s (HCollision es)" and h: "h = hashKey k"
  shows "\<exists>r. hamtInsert (Some (HCollision es)) ow h k v s = Some r \<and> ins_ok (Some (HCollision es)) h k v s r"
proof (cases "find_entry es k 0")
  case None
  then have no: "\<forall>e \<in> set es. \<not> keyEquals (key e) k"
    by (simp add: find_entry_None)
  then have f: "find (\<lambda>l. keyEquals (key l) k) es = None"
    by (simp add: find_None_iff)
  have "find (\<lambda>l. keyEquals (key l) k') es = None" if "keyEquals k k'" for k'
    using no that keyEquals_right_cong by (auto simp: find_None_iff)
  then show ?thesis
    using None wf h f no
    by (auto simp: ins_ok_def leaves_opt_def find_append_single distinct_keys_append keyEquals_sym
        split: option.splits)
next
  case (Some idx)
  from find_entry_Some [OF this]
  have i: "idx < length es" "keyEquals (key (es ! idx)) k"
    "\<forall>m < idx. \<not> keyEquals (key (es ! m)) k"
    "find (\<lambda>l. keyEquals (key l) k) es = Some (es ! idx)"
    by auto
  show ?thesis
  proof (cases "strict_eq (val (es ! idx)) v")
    case True
    have "hfind (Some (HCollision es)) h' k' s = hfind (Some (HCollision es)) h k s" if "keyEquals k k'" for k' h'
      using that keyEquals_right_cong [OF that] by simp
    then show ?thesis
      using Some True wf i(4)
      by (auto simp: ins_ok_def leaves_opt_def)
  next
    case False
    let ?es = "es[idx := Leaf k h v]"
    have r: "hamtInsert (Some (HCollision es)) ow h k v s =
        Some \<lparr>node = HCollision ?es, added = False, changed = True\<rparr>"
      using Some False by simp
    have "find (\<lambda>l. keyEquals (key l) k') ?es = Some (Leaf k h v)" if "keyEquals k k'" for k'
    proof (rule find_update_hit)
      show "\<forall>m<idx. \<not> keyEquals (key (es ! m)) k'"
        using i(3) keyEquals_right_cong [OF that] by simp
    qed (use i that in auto)
    moreover have "find (\<lambda>l. keyEquals (key l) k') ?es = find (\<lambda>l. keyEquals (key l) k') es"
      if "\<not> keyEquals k k'" for k'
    proof (rule find_update_miss)
      show "\<not> keyEquals (key (es ! idx)) k'"
        using i(2) that keyEquals_left_cong by blast
    qed (use i that in auto)
    moreover have "wf_node s (HCollision ?es)"
      using wf h i by (auto simp: distinct_keys_update dest!: set_update_subset_insert [THEN subsetD])
    moreover have "set ?es \<subseteq> insert (Leaf k h v) (set es)"
      by (rule set_update_subset_insert)
    ultimately have "ins_ok (Some (HCollision es)) h k v s \<lparr>node = HCollision ?es, added = False, changed = True\<rparr>"
      using False i(4) by (auto simp: ins_ok_def leaves_opt_def)
    with r show ?thesis by blast
  qed
qed

lemma hfind_node:
  assumes "length cs = popcount b"
  shows "hfind (Some (HNode no b cs)) h k s =
     (if bit b (hash_index h s) then hfind (Some (cs ! packed_index b (hash_index h s))) h k (s + BITS)
      else None)"
  using assms hash_index_less [of h s]
  by (simp add: AND_bit_of_eq_0 array_get_def packed_index_less)

lemma leaves_child_subset:
  "c \<in> set cs \<Longrightarrow> set (leaves c) \<subseteq> set (leaves (HNode no b cs))"
  by auto

lemma insert_node_noslot:
  assumes wf: "wf_node s (HNode no b cs)" and nb: "\<not> bit b (hash_index (hashKey k) s)"
  shows "\<exists>r. hamtInsert (Some (HNode no b cs)) ow (hashKey k) k v s = Some r \<and>
             ins_ok (Some (HNode no b cs)) (hashKey k) k v s r"
proof -
  let ?h = "hashKey k"
  let ?idx = "hash_index ?h s"
  let ?new = "Leaf k ?h v"
  let ?b = "b OR bit_of ?idx"
  let ?cs = "splice_in cs (packed_index b ?idx) (HLeaf ?new)"
  have idx: "?idx < 32" by (rule hash_index_less)
  have len: "length cs = popcount b" and s: "s < 32"
    and chwf: "\<forall>c \<in> set cs. wf_node (s + BITS) c"
    and ix: "\<forall>i<32. bit b i \<longrightarrow> (\<forall>l \<in> set (leaves (cs ! packed_index b i)). hash_index (hash l) s = i)"
    using wf by auto
  have r: "hamtInsert (Some (HNode no b cs)) ow ?h k v s =
      Some \<lparr>node = HNode ow ?b ?cs, added = True, changed = True\<rparr>"
    using nb idx by (simp add: AND_bit_of_eq_0 Let_def)
  have slot: "?cs ! packed_index ?b i = (if i = ?idx then HLeaf ?new else cs ! packed_index b i)"
    if "i < 32" "i = ?idx \<or> bit b i" for i
    using slot_insert [OF that(1) idx nb len that(2)] .
  have len': "length ?cs = popcount ?b"
    using idx nb len by (simp add: length_splice_in popcount_OR)
  have wf': "wf_node s (HNode ow ?b ?cs)"
  proof -
    have "\<forall>c \<in> set ?cs. wf_node (s + BITS) c"
      using chwf by (simp add: set_splice_in)
    moreover have "\<forall>i<32. bit ?b i \<longrightarrow> (\<forall>l \<in> set (leaves (?cs ! packed_index ?b i)). hash_index (hash l) s = i)"
      using ix idx by (auto simp: bit_OR_bit_of slot)
    ultimately show ?thesis
      unfolding wf_node.simps using s len' by blast
  qed
  have old: "hfind (Some (HNode no b cs)) ?h k s = None"
    using nb by (simp add: hfind_node [OF len] del: hfind.simps)
  have find': "hfind (Some (HNode ow ?b ?cs)) (hashKey k') k' s =
        (if keyEquals k k' then Some ?new else hfind (Some (HNode no b cs)) (hashKey k') k' s)" for k'
  proof -
    let ?i' = "hash_index (hashKey k') s"
    have i': "?i' < 32" by (rule hash_index_less)
    show ?thesis
    proof (cases "?i' = ?idx")
      case True
      have "leaf_match ?new (hashKey k') k' = keyEquals k k'"
        using keyEquals_hashKey [of k k'] by (auto simp: leaf_match_def)
      then show ?thesis
        using True nb idx len len'
        by (simp add: hfind_node [OF len'] hfind_node [OF len] bit_OR_bit_of slot hfind_leaf del: hfind.simps)
    next
      case False
      then have "\<not> keyEquals k k'"
        using keyEquals_hashKey [of k k'] by auto
      then show ?thesis
        using False idx i' len len'
        by (simp add: hfind_node [OF len'] hfind_node [OF len] bit_OR_bit_of slot del: hfind.simps)
    qed
  qed
  have "set (leaves (HNode ow ?b ?cs)) \<subseteq> insert ?new (set (leaves (HNode no b cs)))"
    by (auto simp: set_splice_in)
  then have "ins_ok (Some (HNode no b cs)) ?h k v s \<lparr>node = HNode ow ?b ?cs, added = True, changed = True\<rparr>"
    unfolding ins_ok_def using wf' old find'
    by (simp add: leaves_opt_def del: hfind.simps leaves.simps wf_node.simps)
  with r show ?thesis by blast
qed

lemma insert_node_slot:
  assumes wf: "wf_node s (HNode no b cs)" and hb: "bit b (hash_index (hashKey k) s)"
    and ag: "\<forall>l \<in> set (leaves (HNode no b cs)). take_bit s (hash l) = take_bit s (hashKey k)"
    and ih: "\<And>c. c = cs ! packed_index b (hash_index (hashKey k) s) \<Longrightarrow> wf_node (s + BITS) c \<Longrightarrow>
          \<forall>l \<in> set (leaves c). take_bit (s + BITS) (hash l) = take_bit (s + BITS) (hashKey k) \<Longrightarrow>
          \<exists>r. hamtInsert (Some c) ow (hashKey k) k v (s + BITS) = Some r \<and>
              ins_ok (Some c) (hashKey k) k v (s + BITS) r"
  shows "\<exists>r. hamtInsert (Some (HNode no b cs)) ow (hashKey k) k v s = Some r \<and>
             ins_ok (Some (HNode no b cs)) (hashKey k) k v s r"
proof -
  let ?h = "hashKey k"
  let ?idx = "hash_index ?h s"
  let ?p = "packed_index b ?idx"
  let ?c = "cs ! ?p"
  let ?new = "Leaf k ?h v"
  let ?n = "Some (HNode no b cs)"
  have idx: "?idx < 32" by (rule hash_index_less)
  have len: "length cs = popcount b" and s: "s < 32"
    and chwf: "\<forall>c \<in> set cs. wf_node (s + BITS) c"
    and ix: "\<forall>i<32. bit b i \<longrightarrow> (\<forall>l \<in> set (leaves (cs ! packed_index b i)). hash_index (hash l) s = i)"
    using wf by auto
  have p: "?p < length cs"
    using idx hb len by (simp add: packed_index_less)
  then have cin: "?c \<in> set cs" by simp
  have ag': "\<forall>l \<in> set (leaves ?c). take_bit (s + BITS) (hash l) = take_bit (s + BITS) ?h"
  proof
    fix l assume l: "l \<in> set (leaves ?c)"
    with ix idx hb have "hash_index (hash l) s = ?idx" by blast
    moreover from l cin ag have "take_bit s (hash l) = take_bit s ?h"
      using leaves_child_subset by blast
    ultimately show "take_bit (s + BITS) (hash l) = take_bit (s + BITS) ?h"
      using s by (simp add: take_bit_step)
  qed
  from ih [OF refl _ ag'] chwf cin
  obtain r' where r': "hamtInsert (Some ?c) ow ?h k v (s + BITS) = Some r'"
    and ok': "ins_ok (Some ?c) ?h k v (s + BITS) r'"
    by blast
  have get: "array_get cs ?p = Some ?c"
    using p by (simp add: array_get_def)
  have old: "hfind ?n (hashKey k') k' s =
      (if hash_index (hashKey k') s = ?idx then hfind (Some ?c) (hashKey k') k' (s + BITS)
       else hfind ?n (hashKey k') k' s)" for k'
    using hb by (simp add: hfind_node [OF len] del: hfind.simps)
  have old_self: "hfind ?n ?h k s = hfind (Some ?c) ?h k (s + BITS)"
    using hb by (simp add: hfind_node [OF len] del: hfind.simps)
  from ok' have
    wf_r: "wf_node (s + BITS) (node r')" and
    lv_r: "set (leaves (node r')) \<subseteq> insert ?new (set (leaves ?c))" and
    un_r: "\<not> changed r' \<longrightarrow> \<not> added r' \<and> Some (node r') = Some ?c" and
    fd_r: "\<And>k'. hfind (Some (node r')) (hashKey k') k' (s + BITS) =
        (if keyEquals k k' then (if changed r' then Some ?new else hfind (Some ?c) ?h k (s + BITS))
         else hfind (Some ?c) (hashKey k') k' (s + BITS))" and
    ch_r: "changed r' \<longleftrightarrow> (case hfind (Some ?c) ?h k (s + BITS) of None \<Rightarrow> True | Some l \<Rightarrow> \<not> strict_eq (val l) v)" and
    ad_r: "added r' \<longleftrightarrow> hfind (Some ?c) ?h k (s + BITS) = None"
    unfolding ins_ok_def leaves_opt_def option.case by blast+
  show ?thesis
  proof (cases "changed r'")
    case False
    with un_r have na: "\<not> added r'" by simp
    have r: "hamtInsert ?n ow ?h k v s = Some \<lparr>node = HNode no b cs, added = False, changed = False\<rparr>"
      using hb idx r' get False na by (simp add: AND_bit_of_eq_0 Let_def)
    have "hfind ?n (hashKey k') k' s = hfind ?n ?h k s" if "keyEquals k k'" for k'
      using hfind_cong [OF that] keyEquals_hashKey [OF that] by simp
    moreover have "set (leaves (HNode no b cs)) \<subseteq> insert ?new (set (leaves (HNode no b cs)))"
      by (rule subset_insertI)
    ultimately have "ins_ok ?n ?h k v s \<lparr>node = HNode no b cs, added = False, changed = False\<rparr>"
      unfolding ins_ok_def using wf False na ch_r ad_r old_self
      by (simp add: leaves_opt_def del: hfind.simps leaves.simps wf_node.simps)
    with r show ?thesis by blast
  next
    case True
    define eo where "eo = fst (ensureEditableHNode no b cs ow)"
    have eo: "ensureEditableHNode no b cs ow = (eo, b, cs)"
      by (simp add: eo_def ensureEditableHNode_def)
    let ?cs = "array_set cs ?p (node r')"
    have r: "hamtInsert ?n ow ?h k v s = Some \<lparr>node = HNode eo b ?cs, added = added r', changed = True\<rparr>"
      using hb idx r' get True eo by (simp add: AND_bit_of_eq_0 Let_def)
    have len': "length ?cs = popcount b"
      using p len by (simp add: array_set_def)
    have slot: "?cs ! packed_index b i = (if i = ?idx then node r' else cs ! packed_index b i)"
      if "i < 32" "bit b i" for i
      using slot_update [OF that(1) idx hb len that(2)] .
    have set': "set ?cs \<subseteq> insert (node r') (set cs)"
      using p by (simp add: array_set_def set_update_subset_insert)
    have wf': "wf_node s (HNode eo b ?cs)"
    proof -
      have "\<forall>c \<in> set ?cs. wf_node (s + BITS) c"
        using chwf wf_r set' by blast
      moreover have "\<forall>i<32. bit b i \<longrightarrow> (\<forall>l \<in> set (leaves (?cs ! packed_index b i)). hash_index (hash l) s = i)"
      proof (intro allI impI ballI)
        fix i l assume i: "i < 32" "bit b i" and l: "l \<in> set (leaves (?cs ! packed_index b i))"
        show "hash_index (hash l) s = i"
        proof (cases "i = ?idx")
          case True
          with l i have "l \<in> set (leaves (node r'))" by (simp add: slot)
          with lv_r have "l = ?new \<or> l \<in> set (leaves ?c)" by blast
          with ix idx hb True show ?thesis by auto
        next
          case False
          with l i have "l \<in> set (leaves (cs ! packed_index b i))" by (simp add: slot)
          with ix i show ?thesis by blast
        qed
      qed
      ultimately show ?thesis
        unfolding wf_node.simps using s len' by blast
    qed
    have find': "hfind (Some (HNode eo b ?cs)) (hashKey k') k' s =
        (if keyEquals k k' then Some ?new else hfind ?n (hashKey k') k' s)" for k'
    proof (cases "hash_index (hashKey k') s = ?idx")
      case eq: True
      then show ?thesis
        using hb idx fd_r [of k'] True
        by (simp add: hfind_node [OF len'] hfind_node [OF len] slot del: hfind.simps)
    next
      case False
      then have "\<not> keyEquals k k'"
        using keyEquals_hashKey [of k k'] by auto
      then show ?thesis
        using False hash_index_less [of "hashKey k'" s]
        by (simp add: hfind_node [OF len'] hfind_node [OF len] slot del: hfind.simps)
    qed
    have "set (leaves (HNode eo b ?cs)) \<subseteq> insert ?new (set (leaves (HNode no b cs)))"
    proof
      fix l assume "l \<in> set (leaves (HNode eo b ?cs))"
      then obtain c where c: "c \<in> set ?cs" "l \<in> set (leaves c)" by auto
      with set' have "c = node r' \<or> c \<in> set cs" by blast
      then show "l \<in> insert ?new (set (leaves (HNode no b cs)))"
      proof
        assume "c = node r'"
        with c lv_r have "l = ?new \<or> l \<in> set (leaves ?c)" by blast
        with cin show ?thesis by auto
      next
        assume "c \<in> set cs"
        with c show ?thesis by auto
      qed
    qed
    then have "ins_ok ?n ?h k v s \<lparr>node = HNode eo b ?cs, added = added r', changed = True\<rparr>"
      unfolding ins_ok_def using wf' find' True ch_r ad_r old_self
      by (simp add: leaves_opt_def del: hfind.simps leaves.simps wf_node.simps)
    with r show ?thesis by blast
  qed
qed

lemma hamtInsert_ok:
  assumes "wf_opt s n" "\<forall>l \<in> set (leaves_opt n). take_bit s (hash l) = take_bit s h" "h = hashKey k"
  shows "\<exists>r. hamtInsert n ow h k v s = Some r \<and> ins_ok n h k v s r"
  using assms
proof (induction n ow h k v s rule: hamtInsert.induct)
  case (1 owner h k v shift)
  show ?case unfolding "1.prems"(3) by (rule insert_none)
next
  case (2 leaf owner h k v shift)
  show ?case unfolding "2.prems"(3)
  proof (rule insert_leaf)
    show "hash leaf = hashKey (key leaf)"
      using "2.prems"(1) by (simp add: wf_opt_def)
    show "take_bit shift (hash leaf) = take_bit shift (hashKey k)"
      using "2.prems"(2,3) by (simp add: leaves_opt_def)
  qed
next
  case (3 entries owner h k v shift)
  show ?case
  proof (rule insert_collision)
    show "wf_node shift (HCollision entries)"
      using "3.prems"(1) by (simp add: wf_opt_def)
    show "h = hashKey k" by (rule "3.prems"(3))
  qed
next
  case (4 nowner bitmap children owner h k v shift)
  let ?idx = "hash_index h shift"
  have h: "h = hashKey k" by (rule "4.prems"(3))
  have wf: "wf_node shift (HNode nowner bitmap children)"
    using "4.prems"(1) by (simp add: wf_opt_def)
  have ag: "\<forall>l \<in> set (leaves (HNode nowner bitmap children)). take_bit shift (hash l) = take_bit shift (hashKey k)"
    using "4.prems"(2) h by (simp add: leaves_opt_def)
  show ?case
  proof (cases "bit bitmap ?idx")
    case False
    then have "\<not> bit bitmap (hash_index (hashKey k) shift)" by (simp add: h)
    from insert_node_noslot [OF wf this]
    show ?thesis unfolding h .
  next
    case True
    have len: "length children = popcount bitmap" using wf by simp
    have p: "packed_index bitmap ?idx < length children"
      using True len hash_index_less [of h shift] by (simp add: packed_index_less)
    have ih: "\<exists>r. hamtInsert (Some c) owner (hashKey k) k v (shift + BITS) = Some r \<and>
              ins_ok (Some c) (hashKey k) k v (shift + BITS) r"
      if c: "c = children ! packed_index bitmap (hash_index (hashKey k) shift)"
        and cw: "wf_node (shift + BITS) c"
        and ca: "\<forall>l \<in> set (leaves c). take_bit (shift + BITS) (hash l) = take_bit (shift + BITS) (hashKey k)"
      for c
    proof -
      have ag: "array_get children (packed_index bitmap ?idx) = Some c"
        using p c h by (simp add: array_get_def)
      have "\<exists>r. hamtInsert (array_get children (packed_index bitmap ?idx)) owner h k v (shift + BITS) = Some r \<and>
              ins_ok (array_get children (packed_index bitmap ?idx)) h k v (shift + BITS) r"
      proof (rule "4.IH" [OF refl refl refl refl])
        show "\<not> \<not> bitmap AND bit_of ?idx \<noteq> 0"
          using True hash_index_less [of h shift] by (simp add: AND_bit_of_eq_0)
        show "wf_opt (shift + BITS) (array_get children (packed_index bitmap ?idx))"
          unfolding ag using cw by (simp add: wf_opt_def)
        show "\<forall>l \<in> set (leaves_opt (array_get children (packed_index bitmap ?idx))).
            take_bit (shift + BITS) (hash l) = take_bit (shift + BITS) h"
          unfolding ag using ca h by (simp add: leaves_opt_def)
        show "h = hashKey k" by (rule h)
      qed
      then have "\<exists>r. hamtInsert (Some c) owner h k v (shift + BITS) = Some r \<and>
              ins_ok (Some c) h k v (shift + BITS) r"
        unfolding ag .
      then show ?thesis
        unfolding h .
    qed
    from True have "bit bitmap (hash_index (hashKey k) shift)" by (simp add: h)
    from insert_node_slot [OF wf this ag ih]
    show ?thesis unfolding h by blast
  qed
qed

lemma hfind_in_leaves:
  "hfind n h k s = Some l \<Longrightarrow> l \<in> set (leaves_opt n) \<and> keyEquals (key l) k"
proof (induction n h k s rule: hfind.induct)
  case (4 nowner bitmap children h k shift)
  let ?p = "packed_index bitmap (hash_index h shift)"
  from "4.prems" have nz: "bitmap AND bit_of (hash_index h shift) \<noteq> 0"
    and f: "hfind (array_get children ?p) h k (shift + BITS) = Some l"
    by (auto split: if_splits)
  from "4.IH" [OF nz f] have l: "l \<in> set (leaves_opt (array_get children ?p))" "keyEquals (key l) k"
    by auto
  then have "?p < length children"
    by (auto simp: array_get_def leaves_opt_def split: if_splits)
  with l show ?case
    by (auto simp: array_get_def leaves_opt_def)
qed (auto simp: leaves_opt_def dest: find_Some_iff [THEN iffD1] split: if_splits)

lemma wf_leaves_hash:
  "wf_node s c \<Longrightarrow> l \<in> set (leaves c) \<Longrightarrow> hash l = hashKey (key l)"
  by (induction s c rule: wf_node.induct) auto

lemma wf_node_shift:
  "\<not> is_HNode c \<Longrightarrow> wf_node s c = wf_node s' c"
  by (cases c) auto

lemma hfind_shift:
  "\<not> is_HNode c \<Longrightarrow> hfind (Some c) h k s = hfind (Some c) h k s'"
  by (cases c) auto

lemma hfind_wrong_index:
  assumes "wf_node s' c" "\<forall>l \<in> set (leaves c). hash_index (hash l) s = j"
    and "hash_index (hashKey k') s \<noteq> j"
  shows "hfind (Some c) (hashKey k') k' s'' = None"
proof (rule ccontr)
  assume "hfind (Some c) (hashKey k') k' s'' \<noteq> None"
  then obtain l where "hfind (Some c) (hashKey k') k' s'' = Some l" by blast
  from hfind_in_leaves [OF this] have l: "l \<in> set (leaves c)" "keyEquals (key l) k'"
    by (simp_all add: leaves_opt_def)
  with assms(1) have "hash l = hashKey k'"
    using wf_leaves_hash keyEquals_hashKey by metis
  with l assms(2,3) show False by auto
qed

lemma remove_leaf:
  assumes wf: "hash leaf = hashKey (key leaf)"
  shows "rem_ok (Some (HLeaf leaf)) (hashKey k) k s (hamtRemove (Some (HLeaf leaf)) ow (hashKey k) k s)"
proof (cases "leaf_match leaf (hashKey k) k")
  case True
  then have r: "hamtRemove (Some (HLeaf leaf)) ow (hashKey k) k s = \<lparr>rnode = None, removed = True\<rparr>"
    by (simp add: leaf_match_def)
  have "\<not> leaf_match leaf (hashKey k') k'" if "\<not> keyEquals k k'" for k'
    using that True keyEquals_trans keyEquals_sym unfolding leaf_match_def by blast
  then show ?thesis
    unfolding rem_ok_def r using True
    by (simp add: hfind_leaf wf_opt_def leaves_opt_def del: hfind.simps(2))
next
  case False
  then have r: "hamtRemove (Some (HLeaf leaf)) ow (hashKey k) k s =
      \<lparr>rnode = Some (HLeaf leaf), removed = False\<rparr>"
    by (simp add: leaf_match_def)
  have w: "wf_opt s (Some (HLeaf leaf))"
    using wf by (simp add: wf_opt_def)
  have "leaf_match leaf (hashKey k') k' = leaf_match leaf (hashKey k) k" if "keyEquals k k'" for k'
    using leaf_match_cong [OF that] by simp
  then show ?thesis
    unfolding rem_ok_def r using False w
    by (simp add: hfind_leaf del: hfind.simps(2))
qed

lemma remove_collision:
  assumes wf: "wf_node s (HCollision es)"
  shows "rem_ok (Some (HCollision es)) (hashKey k) k s (hamtRemove (Some (HCollision es)) ow (hashKey k) k s)"
proof (cases "find_entry es k 0")
  case None
  then have no: "\<forall>e \<in> set es. \<not> keyEquals (key e) k"
    by (simp add: find_entry_None)
  have "find (\<lambda>l. keyEquals (key l) k') es = None" if "keyEquals k k'" for k'
    using no that keyEquals_right_cong by (auto simp: find_None_iff)
  then show ?thesis
    unfolding rem_ok_def using None wf
    by (simp add: wf_opt_def find_None_iff [of _ es] no)
next
  case (Some idx)
  from find_entry_Some [OF this]
  have i: "idx < length es" "keyEquals (key (es ! idx)) k"
    "find (\<lambda>l. keyEquals (key l) k) es = Some (es ! idx)"
    by auto
  from wf have dk: "distinct_keys es" and hs: "\<forall>e \<in> set es. hash e = hashKey (key e)"
    by auto
  let ?es = "splice_out es idx"
  have hit: "find (\<lambda>l. keyEquals (key l) k') ?es = None" if "keyEquals k k'" for k'
    using find_splice_out_hit [OF dk i(1), of k'] i(2) that keyEquals_trans by blast
  have miss: "find (\<lambda>l. keyEquals (key l) k') ?es = find (\<lambda>l. keyEquals (key l) k') es"
    if "\<not> keyEquals k k'" for k'
  proof (rule find_splice_out_miss [OF i(1)])
    show "\<not> keyEquals (key (es ! idx)) k'"
      using i(2) that keyEquals_left_cong by blast
  qed
  have fnd: "find (\<lambda>l. keyEquals (key l) k') ?es =
      (if keyEquals k k' then None else find (\<lambda>l. keyEquals (key l) k') es)" for k'
    using hit miss by simp
  have sub: "set ?es \<subseteq> set es" by (rule set_splice_out)
  have len: "length ?es = length es - 1"
    using i(1) by (rule length_splice_out)
  consider (one) "length es = 1" | (two) "length es \<noteq> 1" "length ?es = 1" | (more) "length es \<noteq> 1" "length ?es \<noteq> 1"
    by blast
  then show ?thesis
  proof cases
    case one
    then have "?es = []" using len by simp
    with fnd have "find (\<lambda>l. keyEquals (key l) k') es = None" if "\<not> keyEquals k k'" for k'
      using that by (metis find.simps(1))
    then show ?thesis
      unfolding rem_ok_def using Some one i(3)
      by (simp add: wf_opt_def leaves_opt_def)
  next
    case two
    then obtain e where e: "?es = [e]"
      by (cases ?es) auto
    with sub have ein: "e \<in> set es" by auto
    with hs have eh: "hash e = hashKey (key e)" by simp
    have lm: "leaf_match e (hashKey k') k' = keyEquals (key e) k'" for k'
      using eh keyEquals_hashKey [of "key e" k'] by (auto simp: leaf_match_def)
    have "hfind (Some (HLeaf e)) (hashKey k') k' s =
       (if keyEquals k k' then None else find (\<lambda>l. keyEquals (key l) k') es)" for k'
      using fnd [of k'] by (auto simp: e hfind_leaf lm simp del: hfind.simps(2) split: if_splits)
    then show ?thesis
      unfolding rem_ok_def using Some two e eh ein i(3)
      by (simp add: wf_opt_def leaves_opt_def Let_def del: hfind.simps(2))
  next
    case more
    then have ne: "?es \<noteq> []"
      using len i(1) by (cases ?es) auto
    have "wf_node s (HCollision ?es)"
      using ne hs sub dk by (auto simp: distinct_keys_splice_out)
    then show ?thesis
      unfolding rem_ok_def using Some more fnd sub i(3)
      by (simp add: wf_opt_def leaves_opt_def Let_def del: wf_node.simps)
  qed
qed

lemma rem_okI:
  assumes "wf_opt s rn"
    and "set (leaves_opt rn) \<subseteq> set (leaves_opt n)"
    and "rm \<longleftrightarrow> hfind n h k s \<noteq> None"
    and "\<not> rm \<Longrightarrow> rn = n"
    and "\<And>k'. hfind rn (hashKey k') k' s = (if keyEquals k k' then None else hfind n (hashKey k') k' s)"
  shows "rem_ok n h k s \<lparr>rnode = rn, removed = rm\<rparr>"
  using assms unfolding rem_ok_def by simp

lemma rem_ok_wf: "rem_ok n h k s res \<Longrightarrow> wf_opt s (rnode res)"
  unfolding rem_ok_def by blast

lemma rem_ok_leaves: "rem_ok n h k s res \<Longrightarrow> set (leaves_opt (rnode res)) \<subseteq> set (leaves_opt n)"
  unfolding rem_ok_def by blast

lemma rem_ok_removed: "rem_ok n h k s res \<Longrightarrow> removed res \<longleftrightarrow> hfind n h k s \<noteq> None"
  unfolding rem_ok_def by blast

lemma rem_ok_unchanged: "rem_ok n h k s res \<Longrightarrow> \<not> removed res \<Longrightarrow> rnode res = n"
  unfolding rem_ok_def by blast

lemma rem_ok_find:
  "rem_ok n h k s res \<Longrightarrow>
   hfind (rnode res) (hashKey k') k' s = (if keyEquals k k' then None else hfind n (hashKey k') k' s)"
  unfolding rem_ok_def by blast

lemma remove_node_noslot:
  assumes wf: "wf_node s (HNode no b cs)"
    and bt: "\<not> bit b (hash_index (hashKey k) s)"
  shows "rem_ok (Some (HNode no b cs)) (hashKey k) k s \<lparr>rnode = Some (HNode no b cs), removed = False\<rparr>"
proof -
  let ?n = "Some (HNode no b cs)"
  have len: "length cs = popcount b" using wf by simp
  have old: "hfind ?n (hashKey k') k' s =
      (if bit b (hash_index (hashKey k') s)
       then hfind (Some (cs ! packed_index b (hash_index (hashKey k') s))) (hashKey k') k' (s + BITS)
       else None)" for k'
    by (rule hfind_node [OF len])
  have "hfind ?n (hashKey k') k' s = None" if "keyEquals k k'" for k'
    using bt keyEquals_hashKey [OF that] unfolding old by simp
  moreover have "hfind ?n (hashKey k) k s = None"
    using bt unfolding old by simp
  moreover have "wf_opt s ?n" using wf by (simp add: wf_opt_def)
  ultimately show ?thesis
    by (intro rem_okI) simp_all
qed

lemma remove_node_unchanged:
  assumes wf: "wf_node s (HNode no b cs)"
    and bt: "bit b (hash_index (hashKey k) s)"
    and okc: "rem_ok (Some (cs ! packed_index b (hash_index (hashKey k) s))) (hashKey k) k (s + BITS) rc"
    and rem: "\<not> removed rc"
  shows "rem_ok (Some (HNode no b cs)) (hashKey k) k s \<lparr>rnode = Some (HNode no b cs), removed = False\<rparr>"
proof -
  let ?h = "hashKey k"
  let ?idx = "hash_index ?h s"
  let ?p = "packed_index b ?idx"
  let ?c = "cs ! ?p"
  let ?n = "Some (HNode no b cs)"
  have idx: "?idx < 32" by (rule hash_index_less)
  have len: "length cs = popcount b" and s: "s < 32"
    and chwf: "\<forall>c \<in> set cs. wf_node (s + BITS) c"
    and ix: "\<forall>i<32. bit b i \<longrightarrow> (\<forall>l \<in> set (leaves (cs ! packed_index b i)). hash_index (hash l) s = i)"
    using wf by auto
  have wfn: "wf_opt s ?n" using wf by (simp add: wf_opt_def)
  have old: "hfind ?n (hashKey k') k' s =
      (if bit b (hash_index (hashKey k') s)
       then hfind (Some (cs ! packed_index b (hash_index (hashKey k') s))) (hashKey k') k' (s + BITS)
       else None)" for k'
    by (rule hfind_node [OF len])
  have same_idx: "hash_index (hashKey k') s = ?idx" if "keyEquals k k'" for k'
    using keyEquals_hashKey [OF that] by simp
  have p: "?p < length cs"
    using idx bt len by (simp add: packed_index_less)
  then have cin: "?c \<in> set cs" by simp
  have wf_c: "wf_opt (s + BITS) (rnode rc)"
    using okc by (rule rem_ok_wf)
  have lv_c: "set (leaves_opt (rnode rc)) \<subseteq> set (leaves ?c)"
    using rem_ok_leaves [OF okc] by (simp add: leaves_opt_def)
  have rm_c: "removed rc \<longleftrightarrow> hfind (Some ?c) ?h k (s + BITS) \<noteq> None"
    using okc by (rule rem_ok_removed)
  have un_c: "\<not> removed rc \<longrightarrow> rnode rc = Some ?c"
    using rem_ok_unchanged [OF okc] by blast
  have fd_c: "hfind (rnode rc) (hashKey k') k' (s + BITS) =
      (if keyEquals k k' then None else hfind (Some ?c) (hashKey k') k' (s + BITS))" for k'
    using okc by (rule rem_ok_find)
  have old_self: "hfind ?n ?h k s = hfind (Some ?c) ?h k (s + BITS)"
    using bt old [of k] by simp
  from rem un_c have rn: "rnode rc = Some ?c" by simp
  have "hfind ?n (hashKey k') k' s = None" if "keyEquals k k'" for k'
    using fd_c [of k'] that bt same_idx [OF that] unfolding rn old by simp
  moreover have "hfind ?n ?h k s = None"
    using rem rm_c old_self by simp
  ultimately show ?thesis
    using wfn by (intro rem_okI) simp_all
qed

lemma remove_node_empty:
  assumes wf: "wf_node s (HNode no b cs)"
    and bt: "bit b (hash_index (hashKey k) s)"
    and okc: "rem_ok (Some (cs ! packed_index b (hash_index (hashKey k) s))) (hashKey k) k (s + BITS) rc"
    and rem: "removed rc" and rn: "rnode rc = None"
    and empty: "b XOR bit_of (hash_index (hashKey k) s) = 0"
  shows "rem_ok (Some (HNode no b cs)) (hashKey k) k s \<lparr>rnode = None, removed = True\<rparr>"
proof -
  let ?h = "hashKey k"
  let ?idx = "hash_index ?h s"
  let ?p = "packed_index b ?idx"
  let ?c = "cs ! ?p"
  let ?n = "Some (HNode no b cs)"
  have idx: "?idx < 32" by (rule hash_index_less)
  have len: "length cs = popcount b" and s: "s < 32"
    and chwf: "\<forall>c \<in> set cs. wf_node (s + BITS) c"
    and ix: "\<forall>i<32. bit b i \<longrightarrow> (\<forall>l \<in> set (leaves (cs ! packed_index b i)). hash_index (hash l) s = i)"
    using wf by auto
  have wfn: "wf_opt s ?n" using wf by (simp add: wf_opt_def)
  have old: "hfind ?n (hashKey k') k' s =
      (if bit b (hash_index (hashKey k') s)
       then hfind (Some (cs ! packed_index b (hash_index (hashKey k') s))) (hashKey k') k' (s + BITS)
       else None)" for k'
    by (rule hfind_node [OF len])
  have same_idx: "hash_index (hashKey k') s = ?idx" if "keyEquals k k'" for k'
    using keyEquals_hashKey [OF that] by simp
  have p: "?p < length cs"
    using idx bt len by (simp add: packed_index_less)
  then have cin: "?c \<in> set cs" by simp
  have wf_c: "wf_opt (s + BITS) (rnode rc)"
    using okc by (rule rem_ok_wf)
  have lv_c: "set (leaves_opt (rnode rc)) \<subseteq> set (leaves ?c)"
    using rem_ok_leaves [OF okc] by (simp add: leaves_opt_def)
  have rm_c: "removed rc \<longleftrightarrow> hfind (Some ?c) ?h k (s + BITS) \<noteq> None"
    using okc by (rule rem_ok_removed)
  have un_c: "\<not> removed rc \<longrightarrow> rnode rc = Some ?c"
    using rem_ok_unchanged [OF okc] by blast
  have fd_c: "hfind (rnode rc) (hashKey k') k' (s + BITS) =
      (if keyEquals k k' then None else hfind (Some ?c) (hashKey k') k' (s + BITS))" for k'
    using okc by (rule rem_ok_find)
  have old_self: "hfind ?n ?h k s = hfind (Some ?c) ?h k (s + BITS)"
    using bt old [of k] by simp
  have cNone: "hfind (Some ?c) (hashKey k') k' (s + BITS) = None" if "\<not> keyEquals k k'" for k'
    using fd_c [of k'] that unfolding rn by simp
  let ?b = "b XOR bit_of ?idx"
  let ?cs = "splice_out cs ?p"
  have bit': "bit ?b i = (bit b i \<and> i \<noteq> ?idx)" for i
    using idx bt by (rule bit_XOR_bit_of)
  have len': "length ?cs = popcount ?b"
    using p idx bt len by (simp add: length_splice_out popcount_XOR)
  have slot: "?cs ! packed_index ?b i = cs ! packed_index b i" if "i < 32" "bit b i" "i \<noteq> ?idx" for i
    using slot_remove [OF that(1) idx bt len that(3,2)] .
  have found: "hfind ?n ?h k s \<noteq> None"
    using rem rm_c old_self by simp
  from empty have only: "bit b i \<Longrightarrow> i = ?idx" for i
    using bit' [of i] by auto
  have "hfind ?n (hashKey k') k' s = None" if nk: "\<not> keyEquals k k'" for k'
  proof (cases "bit b (hash_index (hashKey k') s)")
    case True
    with only have "hash_index (hashKey k') s = ?idx" by blast
    then show ?thesis using cNone [OF nk] True unfolding old by simp
  next
    case False
    then show ?thesis unfolding old by simp
  qed
  then show ?thesis
    using found by (intro rem_okI) (simp_all add: wf_opt_def leaves_opt_def)
qed

lemma remove_node_collapse:
  assumes wf: "wf_node s (HNode no b cs)"
    and bt: "bit b (hash_index (hashKey k) s)"
    and okc: "rem_ok (Some (cs ! packed_index b (hash_index (hashKey k) s))) (hashKey k) k (s + BITS) rc"
    and rem: "removed rc" and rn: "rnode rc = None"
    and collapse: "length (splice_out cs (packed_index b (hash_index (hashKey k) s))) = 1"
      "\<not> is_HNode (splice_out cs (packed_index b (hash_index (hashKey k) s)) ! 0)"
  shows "rem_ok (Some (HNode no b cs)) (hashKey k) k s
     \<lparr>rnode = Some (splice_out cs (packed_index b (hash_index (hashKey k) s)) ! 0), removed = True\<rparr>"
proof -
  let ?h = "hashKey k"
  let ?idx = "hash_index ?h s"
  let ?p = "packed_index b ?idx"
  let ?c = "cs ! ?p"
  let ?n = "Some (HNode no b cs)"
  have idx: "?idx < 32" by (rule hash_index_less)
  have len: "length cs = popcount b" and s: "s < 32"
    and chwf: "\<forall>c \<in> set cs. wf_node (s + BITS) c"
    and ix: "\<forall>i<32. bit b i \<longrightarrow> (\<forall>l \<in> set (leaves (cs ! packed_index b i)). hash_index (hash l) s = i)"
    using wf by auto
  have wfn: "wf_opt s ?n" using wf by (simp add: wf_opt_def)
  have old: "hfind ?n (hashKey k') k' s =
      (if bit b (hash_index (hashKey k') s)
       then hfind (Some (cs ! packed_index b (hash_index (hashKey k') s))) (hashKey k') k' (s + BITS)
       else None)" for k'
    by (rule hfind_node [OF len])
  have same_idx: "hash_index (hashKey k') s = ?idx" if "keyEquals k k'" for k'
    using keyEquals_hashKey [OF that] by simp
  have p: "?p < length cs"
    using idx bt len by (simp add: packed_index_less)
  then have cin: "?c \<in> set cs" by simp
  have wf_c: "wf_opt (s + BITS) (rnode rc)"
    using okc by (rule rem_ok_wf)
  have lv_c: "set (leaves_opt (rnode rc)) \<subseteq> set (leaves ?c)"
    using rem_ok_leaves [OF okc] by (simp add: leaves_opt_def)
  have rm_c: "removed rc \<longleftrightarrow> hfind (Some ?c) ?h k (s + BITS) \<noteq> None"
    using okc by (rule rem_ok_removed)
  have un_c: "\<not> removed rc \<longrightarrow> rnode rc = Some ?c"
    using rem_ok_unchanged [OF okc] by blast
  have fd_c: "hfind (rnode rc) (hashKey k') k' (s + BITS) =
      (if keyEquals k k' then None else hfind (Some ?c) (hashKey k') k' (s + BITS))" for k'
    using okc by (rule rem_ok_find)
  have old_self: "hfind ?n ?h k s = hfind (Some ?c) ?h k (s + BITS)"
    using bt old [of k] by simp
  have cNone: "hfind (Some ?c) (hashKey k') k' (s + BITS) = None" if "\<not> keyEquals k k'" for k'
    using fd_c [of k'] that unfolding rn by simp
  let ?b = "b XOR bit_of ?idx"
  let ?cs = "splice_out cs ?p"
  have bit': "bit ?b i = (bit b i \<and> i \<noteq> ?idx)" for i
    using idx bt by (rule bit_XOR_bit_of)
  have len': "length ?cs = popcount ?b"
    using p idx bt len by (simp add: length_splice_out popcount_XOR)
  have slot: "?cs ! packed_index ?b i = cs ! packed_index b i" if "i < 32" "bit b i" "i \<noteq> ?idx" for i
    using slot_remove [OF that(1) idx bt len that(3,2)] .
  have found: "hfind ?n ?h k s \<noteq> None"
    using rem rm_c old_self by simp
  from collapse have "card {i. bit ?b i} = 1"
    using len' by (simp add: popcount_card)
  then obtain j where j: "{i. bit ?b i} = {j}"
    by (rule card_1_singletonE)
  then have "bit ?b j" by blast
  then have bj: "bit b j" "j \<noteq> ?idx" and j32: "j < 32"
    using bit' [of j] bit_imp_le_length [of b j] by auto
  have only: "i = ?idx \<or> i = j" if "bit b i" for i
  proof (cases "i = ?idx")
    case False
    with that have "bit ?b i" by (simp add: bit')
    with j show ?thesis by blast
  qed simp
  have "packed_index ?b j < popcount ?b"
    using j32 bj by (simp add: packed_index_less bit')
  then have "packed_index ?b j = 0"
    using collapse len' by simp
  with slot [OF j32 bj] have c2: "?cs ! 0 = cs ! packed_index b j"
    by simp
  let ?c2 = "cs ! packed_index b j"
  have c2in: "?c2 \<in> set cs"
    using j32 bj len by (simp add: packed_index_less)
  have nn: "\<not> is_HNode ?c2" using collapse c2 by simp
  have wf2: "wf_node (s + BITS) ?c2" using chwf c2in by blast
  then have wf2': "wf_opt s (Some ?c2)"
    using wf_node_shift [OF nn, of s "s + BITS"] by (simp add: wf_opt_def)
  have ix2: "\<forall>l \<in> set (leaves ?c2). hash_index (hash l) s = j"
    using ix j32 bj by blast
  have fd: "hfind (Some ?c2) (hashKey k') k' s =
      (if keyEquals k k' then None else hfind ?n (hashKey k') k' s)" for k'
  proof (cases "hash_index (hashKey k') s = j")
    case eq: True
    then have nk: "\<not> keyEquals k k'" using same_idx bj by auto
    have "hfind ?n (hashKey k') k' s = hfind (Some ?c2) (hashKey k') k' (s + BITS)"
      unfolding old using eq bj by simp
    also have "\<dots> = hfind (Some ?c2) (hashKey k') k' s"
      by (rule hfind_shift [OF nn])
    finally show ?thesis using nk by simp
  next
    case neq: False
    have new: "hfind (Some ?c2) (hashKey k') k' s = None"
      using hfind_wrong_index [OF wf2 ix2 neq] .
    have "hfind ?n (hashKey k') k' s = None" if nk: "\<not> keyEquals k k'"
    proof (cases "bit b (hash_index (hashKey k') s)")
      case True
      with only neq have "hash_index (hashKey k') s = ?idx" by blast
      then show ?thesis using cNone [OF nk] True unfolding old by simp
    next
      case False
      then show ?thesis unfolding old by simp
    qed
    with new show ?thesis by simp
  qed
  have sub: "set (leaves_opt (Some ?c2)) \<subseteq> set (leaves_opt ?n)"
    unfolding leaves_opt_def option.case using c2in by (rule leaves_child_subset)
  have "rem_ok ?n ?h k s \<lparr>rnode = Some ?c2, removed = True\<rparr>"
    using found by (intro rem_okI wf2' sub fd) simp_all
  then show ?thesis unfolding c2 .
qed

lemma remove_node_keep:
  assumes wf: "wf_node s (HNode no b cs)"
    and bt: "bit b (hash_index (hashKey k) s)"
    and okc: "rem_ok (Some (cs ! packed_index b (hash_index (hashKey k) s))) (hashKey k) k (s + BITS) rc"
    and rem: "removed rc" and rn: "rnode rc = None"
  shows "rem_ok (Some (HNode no b cs)) (hashKey k) k s
     \<lparr>rnode = Some (HNode ow (b XOR bit_of (hash_index (hashKey k) s))
                 (splice_out cs (packed_index b (hash_index (hashKey k) s)))), removed = True\<rparr>"
proof -
  let ?h = "hashKey k"
  let ?idx = "hash_index ?h s"
  let ?p = "packed_index b ?idx"
  let ?c = "cs ! ?p"
  let ?n = "Some (HNode no b cs)"
  have idx: "?idx < 32" by (rule hash_index_less)
  have len: "length cs = popcount b" and s: "s < 32"
    and chwf: "\<forall>c \<in> set cs. wf_node (s + BITS) c"
    and ix: "\<forall>i<32. bit b i \<longrightarrow> (\<forall>l \<in> set (leaves (cs ! packed_index b i)). hash_index (hash l) s = i)"
    using wf by auto
  have wfn: "wf_opt s ?n" using wf by (simp add: wf_opt_def)
  have old: "hfind ?n (hashKey k') k' s =
      (if bit b (hash_index (hashKey k') s)
       then hfind (Some (cs ! packed_index b (hash_index (hashKey k') s))) (hashKey k') k' (s + BITS)
       else None)" for k'
    by (rule hfind_node [OF len])
  have same_idx: "hash_index (hashKey k') s = ?idx" if "keyEquals k k'" for k'
    using keyEquals_hashKey [OF that] by simp
  have p: "?p < length cs"
    using idx bt len by (simp add: packed_index_less)
  then have cin: "?c \<in> set cs" by simp
  have wf_c: "wf_opt (s + BITS) (rnode rc)"
    using okc by (rule rem_ok_wf)
  have lv_c: "set (leaves_opt (rnode rc)) \<subseteq> set (leaves ?c)"
    using rem_ok_leaves [OF okc] by (simp add: leaves_opt_def)
  have rm_c: "removed rc \<longleftrightarrow> hfind (Some ?c) ?h k (s + BITS) \<noteq> None"
    using okc by (rule rem_ok_removed)
  have un_c: "\<not> removed rc \<longrightarrow> rnode rc = Some ?c"
    using rem_ok_unchanged [OF okc] by blast
  have fd_c: "hfind (rnode rc) (hashKey k') k' (s + BITS) =
      (if keyEquals k k' then None else hfind (Some ?c) (hashKey k') k' (s + BITS))" for k'
    using okc by (rule rem_ok_find)
  have old_self: "hfind ?n ?h k s = hfind (Some ?c) ?h k (s + BITS)"
    using bt old [of k] by simp
  have cNone: "hfind (Some ?c) (hashKey k') k' (s + BITS) = None" if "\<not> keyEquals k k'" for k'
    using fd_c [of k'] that unfolding rn by simp
  let ?b = "b XOR bit_of ?idx"
  let ?cs = "splice_out cs ?p"
  have bit': "bit ?b i = (bit b i \<and> i \<noteq> ?idx)" for i
    using idx bt by (rule bit_XOR_bit_of)
  have len': "length ?cs = popcount ?b"
    using p idx bt len by (simp add: length_splice_out popcount_XOR)
  have slot: "?cs ! packed_index ?b i = cs ! packed_index b i" if "i < 32" "bit b i" "i \<noteq> ?idx" for i
    using slot_remove [OF that(1) idx bt len that(3,2)] .
  have found: "hfind ?n ?h k s \<noteq> None"
    using rem rm_c old_self by simp
  have wf': "wf_opt s (Some (HNode ow ?b ?cs))"
  proof -
    have "\<forall>c \<in> set ?cs. wf_node (s + BITS) c"
      using chwf set_splice_out [of cs ?p] by blast
    moreover have "\<forall>i<32. bit ?b i \<longrightarrow> (\<forall>l \<in> set (leaves (?cs ! packed_index ?b i)). hash_index (hash l) s = i)"
      using ix by (simp add: bit' slot)
    ultimately show ?thesis
      unfolding wf_opt_def option.case wf_node.simps using s len' by blast
  qed
  have fd: "hfind (Some (HNode ow ?b ?cs)) (hashKey k') k' s =
      (if keyEquals k k' then None else hfind ?n (hashKey k') k' s)" for k'
  proof (cases "hash_index (hashKey k') s = ?idx")
    case eq: True
    have "hfind ?n (hashKey k') k' s = None" if "\<not> keyEquals k k'"
      using cNone [OF that] eq bt unfolding old by simp
    moreover have "hfind (Some (HNode ow ?b ?cs)) (hashKey k') k' s = None"
      using eq by (simp add: hfind_node [OF len'] bit' del: hfind.simps(4))
    ultimately show ?thesis by simp
  next
    case neq: False
    then have "\<not> keyEquals k k'" using same_idx by auto
    moreover have "hfind (Some (HNode ow ?b ?cs)) (hashKey k') k' s = hfind ?n (hashKey k') k' s"
      using neq hash_index_less [of "hashKey k'" s]
      by (simp add: hfind_node [OF len'] old bit' slot del: hfind.simps(4))
    ultimately show ?thesis by simp
  qed
  have sub: "set (leaves_opt (Some (HNode ow ?b ?cs))) \<subseteq> set (leaves_opt ?n)"
    unfolding leaves_opt_def option.case
  proof
    fix l assume "l \<in> set (leaves (HNode ow ?b ?cs))"
    then obtain c where c: "c \<in> set ?cs" "l \<in> set (leaves c)" by auto
    with set_splice_out [of cs ?p] have "c \<in> set cs" by blast
    with c show "l \<in> set (leaves (HNode no b cs))" by auto
  qed
  show ?thesis
    using found by (intro rem_okI wf' sub fd) simp_all
qed

lemma remove_node_replace:
  assumes wf: "wf_node s (HNode no b cs)"
    and bt: "bit b (hash_index (hashKey k) s)"
    and okc: "rem_ok (Some (cs ! packed_index b (hash_index (hashKey k) s))) (hashKey k) k (s + BITS) rc"
    and rem: "removed rc" and rn: "rnode rc = Some rn"
  shows "rem_ok (Some (HNode no b cs)) (hashKey k) k s
     \<lparr>rnode = Some (HNode eo b (array_set cs (packed_index b (hash_index (hashKey k) s)) rn)),
       removed = True\<rparr>"
proof -
  let ?h = "hashKey k"
  let ?idx = "hash_index ?h s"
  let ?p = "packed_index b ?idx"
  let ?c = "cs ! ?p"
  let ?n = "Some (HNode no b cs)"
  have idx: "?idx < 32" by (rule hash_index_less)
  have len: "length cs = popcount b" and s: "s < 32"
    and chwf: "\<forall>c \<in> set cs. wf_node (s + BITS) c"
    and ix: "\<forall>i<32. bit b i \<longrightarrow> (\<forall>l \<in> set (leaves (cs ! packed_index b i)). hash_index (hash l) s = i)"
    using wf by auto
  have wfn: "wf_opt s ?n" using wf by (simp add: wf_opt_def)
  have old: "hfind ?n (hashKey k') k' s =
      (if bit b (hash_index (hashKey k') s)
       then hfind (Some (cs ! packed_index b (hash_index (hashKey k') s))) (hashKey k') k' (s + BITS)
       else None)" for k'
    by (rule hfind_node [OF len])
  have same_idx: "hash_index (hashKey k') s = ?idx" if "keyEquals k k'" for k'
    using keyEquals_hashKey [OF that] by simp
  have p: "?p < length cs"
    using idx bt len by (simp add: packed_index_less)
  then have cin: "?c \<in> set cs" by simp
  have wf_c: "wf_opt (s + BITS) (rnode rc)"
    using okc by (rule rem_ok_wf)
  have lv_c: "set (leaves_opt (rnode rc)) \<subseteq> set (leaves ?c)"
    using rem_ok_leaves [OF okc] by (simp add: leaves_opt_def)
  have rm_c: "removed rc \<longleftrightarrow> hfind (Some ?c) ?h k (s + BITS) \<noteq> None"
    using okc by (rule rem_ok_removed)
  have un_c: "\<not> removed rc \<longrightarrow> rnode rc = Some ?c"
    using rem_ok_unchanged [OF okc] by blast
  have fd_c: "hfind (rnode rc) (hashKey k') k' (s + BITS) =
      (if keyEquals k k' then None else hfind (Some ?c) (hashKey k') k' (s + BITS))" for k'
    using okc by (rule rem_ok_find)
  have old_self: "hfind ?n ?h k s = hfind (Some ?c) ?h k (s + BITS)"
    using bt old [of k] by simp
  let ?cs = "array_set cs ?p rn"
  have found: "hfind ?n ?h k s \<noteq> None"
    using rem rm_c old_self by simp
  have wf_r: "wf_node (s + BITS) rn" and lv_r: "set (leaves rn) \<subseteq> set (leaves ?c)"
    using wf_c lv_c unfolding rn by (simp_all add: wf_opt_def leaves_opt_def)
  have len': "length ?cs = popcount b"
    using p len by (simp add: array_set_def)
  have slot: "?cs ! packed_index b i = (if i = ?idx then rn else cs ! packed_index b i)"
    if "i < 32" "bit b i" for i
    using slot_update [OF that(1) idx bt len that(2)] .
  have set': "set ?cs \<subseteq> insert rn (set cs)"
    using p by (simp add: array_set_def set_update_subset_insert)
  have wf': "wf_opt s (Some (HNode eo b ?cs))"
  proof -
    have "\<forall>c \<in> set ?cs. wf_node (s + BITS) c"
      using chwf wf_r set' by blast
    moreover have "\<forall>i<32. bit b i \<longrightarrow> (\<forall>l \<in> set (leaves (?cs ! packed_index b i)). hash_index (hash l) s = i)"
    proof (intro allI impI ballI)
      fix i l assume i: "i < 32" "bit b i" and l: "l \<in> set (leaves (?cs ! packed_index b i))"
      show "hash_index (hash l) s = i"
      proof (cases "i = ?idx")
        case eq: True
        with l i have "l \<in> set (leaves rn)" by (simp add: slot)
        with lv_r have "l \<in> set (leaves ?c)" by blast
        with ix idx bt eq show ?thesis by auto
      next
        case False
        with l i have "l \<in> set (leaves (cs ! packed_index b i))" by (simp add: slot)
        with ix i show ?thesis by blast
      qed
    qed
    ultimately show ?thesis
      unfolding wf_opt_def option.case wf_node.simps using s len' by blast
  qed
  have fd: "hfind (Some (HNode eo b ?cs)) (hashKey k') k' s =
      (if keyEquals k k' then None else hfind ?n (hashKey k') k' s)" for k'
  proof (cases "hash_index (hashKey k') s = ?idx")
    case eq: True
    have "hfind (Some (HNode eo b ?cs)) (hashKey k') k' s = hfind (Some rn) (hashKey k') k' (s + BITS)"
      using eq bt idx by (simp add: hfind_node [OF len'] slot del: hfind.simps(4))
    moreover have "hfind ?n (hashKey k') k' s = hfind (Some ?c) (hashKey k') k' (s + BITS)"
      using eq bt unfolding old by simp
    ultimately show ?thesis
      using fd_c [of k'] unfolding rn by simp
  next
    case neq: False
    then have "\<not> keyEquals k k'" using same_idx by auto
    moreover have "hfind (Some (HNode eo b ?cs)) (hashKey k') k' s = hfind ?n (hashKey k') k' s"
      using neq hash_index_less [of "hashKey k'" s]
      by (simp add: hfind_node [OF len'] old slot del: hfind.simps(4))
    ultimately show ?thesis by simp
  qed
  have sub: "set (leaves_opt (Some (HNode eo b ?cs))) \<subseteq> set (leaves_opt ?n)"
    unfolding leaves_opt_def option.case
  proof
    fix l assume "l \<in> set (leaves (HNode eo b ?cs))"
    then obtain c where c: "c \<in> set ?cs" "l \<in> set (leaves c)" by auto
    with set' have "c = rn \<or> c \<in> set cs" by blast
    then show "l \<in> set (leaves (HNode no b cs))"
    proof
      assume "c = rn"
      with c lv_r have "l \<in> set (leaves ?c)" by blast
      with cin show ?thesis by auto
    next
      assume "c \<in> set cs"
      with c show ?thesis by auto
    qed
  qed
  show ?thesis
    using found by (intro rem_okI wf' sub fd) simp_all
qed

lemma hamtRemove_node_step:
  assumes bt: "bit b (hash_index h s)" and len: "length cs = popcount b"
  shows "hamtRemove (Some (HNode no b cs)) ow h k s =
     (let p = packed_index b (hash_index h s);
          rc = hamtRemove (Some (cs ! p)) ow h k (s + BITS)
      in if \<not> removed rc then \<lparr>rnode = Some (HNode no b cs), removed = False\<rparr>
         else case rnode rc of
           None \<Rightarrow>
             if b XOR bit_of (hash_index h s) = 0 then \<lparr>rnode = None, removed = True\<rparr>
             else if length (splice_out cs p) = 1 \<and> \<not> is_HNode (splice_out cs p ! 0)
               then \<lparr>rnode = Some (splice_out cs p ! 0), removed = True\<rparr>
               else \<lparr>rnode = Some (HNode ow (b XOR bit_of (hash_index h s)) (splice_out cs p)), removed = True\<rparr>
         | Some rn \<Rightarrow>
             \<lparr>rnode = Some (HNode (fst (ensureEditableHNode no b cs ow)) b (array_set cs p rn)),
               removed = True\<rparr>)"
proof -
  have "packed_index b (hash_index h s) < length cs"
    using bt len hash_index_less [of h s] by (simp add: packed_index_less)
  then have "array_get cs (packed_index b (hash_index h s)) = Some (cs ! packed_index b (hash_index h s))"
    by (simp add: array_get_def)
  then show ?thesis
    using bt hash_index_less [of h s]
    by (simp add: AND_bit_of_eq_0 Let_def ensureEditableHNode_def split: option.splits)
qed

lemma remove_node:
  assumes wf: "wf_node s (HNode no b cs)"
    and ih: "\<And>c. bit b (hash_index (hashKey k) s) \<Longrightarrow>
          c = cs ! packed_index b (hash_index (hashKey k) s) \<Longrightarrow> wf_node (s + BITS) c \<Longrightarrow>
          rem_ok (Some c) (hashKey k) k (s + BITS) (hamtRemove (Some c) ow (hashKey k) k (s + BITS))"
  shows "rem_ok (Some (HNode no b cs)) (hashKey k) k s (hamtRemove (Some (HNode no b cs)) ow (hashKey k) k s)"
proof (cases "bit b (hash_index (hashKey k) s)")
  case False
  then have "hamtRemove (Some (HNode no b cs)) ow (hashKey k) k s =
      \<lparr>rnode = Some (HNode no b cs), removed = False\<rparr>"
    using hash_index_less [of "hashKey k" s] by (simp add: AND_bit_of_eq_0 Let_def)
  with remove_node_noslot [OF wf False] show ?thesis by simp
next
  case True
  let ?p = "packed_index b (hash_index (hashKey k) s)"
  let ?rc = "hamtRemove (Some (cs ! ?p)) ow (hashKey k) k (s + BITS)"
  have len: "length cs = popcount b" using wf by simp
  have "?p < length cs"
    using True len hash_index_less [of "hashKey k" s] by (simp add: packed_index_less)
  then have "wf_node (s + BITS) (cs ! ?p)" using wf by simp
  from ih [OF True refl this] have okc: "rem_ok (Some (cs ! ?p)) (hashKey k) k (s + BITS) ?rc" .
  note step = hamtRemove_node_step [OF True len, of no ow k, unfolded Let_def]
  show ?thesis
  proof (cases "removed ?rc")
    case False
    with remove_node_unchanged [OF wf True okc False] show ?thesis
      unfolding step by simp
  next
    case rem: True
    show ?thesis
    proof (cases "rnode ?rc")
      case None
      consider (empty) "b XOR bit_of (hash_index (hashKey k) s) = 0"
        | (collapse) "b XOR bit_of (hash_index (hashKey k) s) \<noteq> 0"
            "length (splice_out cs ?p) = 1" "\<not> is_HNode (splice_out cs ?p ! 0)"
        | (keep) "b XOR bit_of (hash_index (hashKey k) s) \<noteq> 0"
            "\<not> (length (splice_out cs ?p) = 1 \<and> \<not> is_HNode (splice_out cs ?p ! 0))"
        by blast
      then show ?thesis
      proof cases
        case empty
        with remove_node_empty [OF wf True okc rem None empty] rem None show ?thesis
          unfolding step by simp
      next
        case collapse
        with remove_node_collapse [OF wf True okc rem None collapse(2,3)] rem None show ?thesis
          unfolding step by simp
      next
        case keep
        with remove_node_keep [OF wf True okc rem None, of ow] rem None show ?thesis
          unfolding step by auto
      qed
    next
      case (Some rn)
      with remove_node_replace [OF wf True okc rem Some] rem show ?thesis
        unfolding step by simp
    qed
  qed
qed

lemma hamtRemove_ok:
  assumes "wf_opt s n" "h = hashKey k"
  shows "rem_ok n h k s (hamtRemove n ow h k s)"
  using assms
proof (induction n ow h k s rule: hamtRemove.induct)
  case (1 owner h k shift)
  show ?case by (simp add: rem_ok_def wf_opt_def leaves_opt_def)
next
  case (2 leaf owner h k shift)
  show ?case unfolding "2.prems"(2)
    by (rule remove_leaf) (use "2.prems"(1) in \<open>simp add: wf_opt_def\<close>)
next
  case (3 entries owner h k shift)
  show ?case unfolding "3.prems"(2)
    by (rule remove_collision) (use "3.prems"(1) in \<open>simp add: wf_opt_def\<close>)
next
  case (4 nowner bitmap children owner h k shift)
  have h: "h = hashKey k" by (rule "4.prems"(2))
  have wf: "wf_node shift (HNode nowner bitmap children)"
    using "4.prems"(1) by (simp add: wf_opt_def)
  have len: "length children = popcount bitmap" using wf by simp
  show ?case unfolding h
  proof (rule remove_node [OF wf])
    fix c assume bt: "bit bitmap (hash_index (hashKey k) shift)"
      and c: "c = children ! packed_index bitmap (hash_index (hashKey k) shift)"
      and cw: "wf_node (shift + BITS) c"
    from bt have True: "bit bitmap (hash_index h shift)" by (simp add: h)
    then have p: "packed_index bitmap (hash_index h shift) < length children"
      using len hash_index_less [of h shift] by (simp add: packed_index_less)
    then have ag: "array_get children (packed_index bitmap (hash_index h shift)) = Some c"
      using c h by (simp add: array_get_def)
    have "rem_ok (array_get children (packed_index bitmap (hash_index h shift))) h k (shift + BITS)
        (hamtRemove (array_get children (packed_index bitmap (hash_index h shift))) owner h k (shift + BITS))"
    proof (rule "4.IH" [OF refl refl _ refl])
      show "\<not> bitmap AND bit_of (hash_index h shift) = 0"
        using True hash_index_less [of h shift] by (simp add: AND_bit_of_eq_0)
      show "wf_opt (shift + BITS) (array_get children (packed_index bitmap (hash_index h shift)))"
        unfolding ag using cw by (simp add: wf_opt_def)
      show "h = hashKey k" by (rule h)
    qed
    then have "rem_ok (Some c) h k (shift + BITS) (hamtRemove (Some c) owner h k (shift + BITS))"
      unfolding ag .
    then show "rem_ok (Some c) (hashKey k) k (shift + BITS) (hamtRemove (Some c) owner (hashKey k) k (shift + BITS))"
      unfolding h .
  qed
qed

lemma hamtGet_lookup:
  "hamt_inv m \<Longrightarrow> hamtGet m k = (case lookup m k of Some l \<Rightarrow> val l | None \<Rightarrow> VUndefined)"
  by (simp add: hamtGet_hfind lookup_def)

lemma hamtHas_lookup: "hamt_inv m \<Longrightarrow> hamtHas m k = (lookup m k \<noteq> None)"
  by (simp add: hamtHas_hfind lookup_def)

lemma lookup_cong: "keyEquals k k' \<Longrightarrow> lookup m k = lookup m k'"
  using hfind_cong [of k k'] keyEquals_hashKey [of k k'] by (simp add: lookup_def)

lemma hamtSet_ok:
  assumes inv: "hamt_inv m"
  shows "\<exists>m'. hamtSet m ow k v = Some m' \<and> hamt_inv m' \<and>
     (\<forall>k'. lookup m' k' =
        (if keyEquals k k' then
           (case lookup m k of
              None \<Rightarrow> Some (Leaf k (hashKey k) v)
            | Some l \<Rightarrow> if strict_eq (val l) v then Some l else Some (Leaf k (hashKey k) v))
         else lookup m k')) \<and>
     (\<exists>r. hamtInsert (root m) ow (hashKey k) k v 0 = Some r \<and>
          (changed r \<longleftrightarrow> \<not> (\<exists>l. lookup m k = Some l \<and> strict_eq (val l) v)) \<and>
          (\<not> changed r \<longrightarrow> m' = m)) \<and>
     msize m' = msize m + (if lookup m k = None then 1 else 0)"
proof -
  have "wf_opt 0 (root m)"
    using inv by (simp add: hamt_inv_def wf_opt_def split: option.splits)
  from hamtInsert_ok [OF this _ refl, of k ow v]
  obtain r where r: "hamtInsert (root m) ow (hashKey k) k v 0 = Some r"
    and ok: "ins_ok (root m) (hashKey k) k v 0 r"
    by auto
  from ok have
    wf_r: "wf_node 0 (node r)" and
    un_r: "\<not> changed r \<longrightarrow> \<not> added r \<and> Some (node r) = root m" and
    fd_r: "\<And>k'. hfind (Some (node r)) (hashKey k') k' 0 =
        (if keyEquals k k' then (if changed r then Some (Leaf k (hashKey k) v) else hfind (root m) (hashKey k) k 0)
         else hfind (root m) (hashKey k') k' 0)" and
    ch_r: "changed r \<longleftrightarrow> (case hfind (root m) (hashKey k) k 0 of None \<Rightarrow> True | Some l \<Rightarrow> \<not> strict_eq (val l) v)" and
    ad_r: "added r \<longleftrightarrow> hfind (root m) (hashKey k) k 0 = None"
    unfolding ins_ok_def by blast+
  show ?thesis
  proof (cases "changed r")
    case False
    then have s: "hamtSet m ow k v = Some m"
      using r by (simp add: hamtSet_def)
    from False ch_r obtain l where l: "lookup m k = Some l" "strict_eq (val l) v"
      by (auto simp: lookup_def split: option.splits)
    have "lookup m k' = lookup m k" if "keyEquals k k'" for k'
      using lookup_cong [OF that] by simp
    then show ?thesis
      using s inv l r False by simp
  next
    case True
    let ?m = "\<lparr>root = Some (node r), msize = msize m + (if added r then 1 else 0)\<rparr>"
    have s: "hamtSet m ow k v = Some ?m"
      using r True by (simp add: hamtSet_def)
    have "lookup ?m k' =
        (if keyEquals k k' then
           (case lookup m k of
              None \<Rightarrow> Some (Leaf k (hashKey k) v)
            | Some l \<Rightarrow> if strict_eq (val l) v then Some l else Some (Leaf k (hashKey k) v))
         else lookup m k')" for k'
      using fd_r [of k'] True ch_r by (auto simp: lookup_def split: option.splits)
    moreover have "\<not> (\<exists>l. lookup m k = Some l \<and> strict_eq (val l) v)"
      using True ch_r by (auto simp: lookup_def)
    moreover have "hamt_inv ?m"
      using wf_r by (simp add: hamt_inv_def)
    ultimately show ?thesis
      using s r True ad_r by (simp add: lookup_def)
  qed
qed

lemma hamtDelete_ok:
  assumes inv: "hamt_inv m"
  shows "hamt_inv (hamtDelete m ow k) \<and>
     (\<forall>k'. lookup (hamtDelete m ow k) k' = (if keyEquals k k' then None else lookup m k')) \<and>
     (hamtDelete m ow k = m \<longleftrightarrow> lookup m k = None) \<and>
     msize (hamtDelete m ow k) = msize m - (if lookup m k = None then 0 else 1)"
proof (cases "root m")
  case None
  then show ?thesis
    using inv by (simp add: hamtDelete_def lookup_def)
next
  case (Some rt)
  let ?res = "hamtRemove (root m) ow (hashKey k) k 0"
  have "wf_opt 0 (root m)"
    using inv by (simp add: hamt_inv_def wf_opt_def split: option.splits)
  from hamtRemove_ok [OF this refl, of k ow]
  have ok: "rem_ok (root m) (hashKey k) k 0 ?res" .
  note wf_r = rem_ok_wf [OF ok] and rm_r = rem_ok_removed [OF ok]
    and un_r = rem_ok_unchanged [OF ok] and fd_r = rem_ok_find [OF ok]
  show ?thesis
  proof (cases "removed ?res")
    case False
    then have d: "hamtDelete m ow k = m"
      by (simp add: hamtDelete_def Let_def)
    have "lookup m k' = None" if "keyEquals k k'" for k'
      using fd_r [of k'] un_r [OF False] that by (simp add: lookup_def)
    then show ?thesis
      using d inv False rm_r by (simp add: lookup_def)
  next
    case True
    let ?m = "\<lparr>root = rnode ?res, msize = msize m - 1\<rparr>"
    have d: "hamtDelete m ow k = ?m"
      using True Some by (simp add: hamtDelete_def Let_def)
    have "?m \<noteq> m"
      by (metis hmap.select_convs(2) add_diff_cancel_left' diff_add_cancel zero_neq_one add.right_neutral)
    moreover have "hamt_inv ?m"
      using wf_r by (simp add: hamt_inv_def wf_opt_def split: option.splits)
    ultimately show ?thesis
      using d True rm_r fd_r by (simp add: lookup_def)
  qed
qed

lemma hamt_inv_empty: "hamt_inv hamtEmpty"
  by (simp add: hamt_inv_def hamtEmpty_def)

lemma hamt_reachable_inv: "hamt_reachable m \<Longrightarrow> hamt_inv m"
proof (induction rule: hamt_reachable.induct)
  case reach_empty
  show ?case by (rule hamt_inv_empty)
next
  case (reach_set m ow k v m')
  with hamtSet_ok [OF reach_set.IH, of ow k v] show ?case by auto
next
  case (reach_delete m ow k)
  with hamtDelete_ok [OF reach_delete.IH, of ow k] show ?case by simp
qed

section \<open>Evaluating the operations on concrete maps\<close>

lemma MAX_DOUBLE_ge: "2 ^ 85 \<le> MAX_DOUBLE"
proof -
  have "(2::rat) ^ 85 \<le> 1 * 2 ^ 971"
    by (simp add: power_increasing)
  also have "\<dots> \<le> (2 ^ 53 - 1) * 2 ^ 971"
    by (rule mult_right_mono) simp_all
  finally show ?thesis by (simp add: MAX_DOUBLE_def)
qed

lemma toInt32_of_int: "toInt32 (Fin (of_int m)) = word_of_int m"
  by (simp add: trunc_rat_def)

lemma hashKey_int:
  assumes "\<bar>n\<bar> < 2 ^ 53"
  shows "hashKey (VNum (Fin (of_int n))) = mix32 (word_of_int n)"
proof -
  have "\<bar>(of_int n :: rat) * 4294967296\<bar> < 2 ^ 53 * 2 ^ 32"
    using assms by (simp add: abs_mult flip: of_int_abs)
  also have "\<dots> \<le> MAX_DOUBLE"
    using MAX_DOUBLE_ge by (simp flip: power_add)
  finally have a: "times_2_32 (Fin (of_int n)) = Fin (of_int (n * 4294967296))"
    by auto
  have c: "(word_of_int (n * 4294967296) :: u32) = 0"
    unfolding word_of_int_eq_0_iff by simp
  have "hashKey (VNum (Fin (of_int n))) =
      mix32 (toInt32 (Fin (of_int n)) XOR toInt32 (times_2_32 (Fin (of_int n))) * 0x9e3779b1)"
    by (simp add: Let_def del: toInt32.simps times_2_32.simps)
  also have "\<dots> = mix32 (word_of_int n)"
    unfolding a toInt32_of_int c by simp
  finally show ?thesis .
qed

lemma hashKey_zero: "hashKey (VNum (Fin 0)) = 2462723854"
  using hashKey_int [of 0] by (simp add: mix32_def Let_def)

lemma hashKey_neg_zero: "hashKey (VNum NegZero) = 2462723854"
  using hashKey_zero by simp

lemma hashKey_five: "hashKey (VNum (Fin 5)) = 1478832577"
  using hashKey_int [of 5] by (simp add: mix32_def Let_def)

lemma hashKey_eight: "hashKey (VNum (Fin 8)) = 3829098881"
  using hashKey_int [of 8] by (simp add: mix32_def Let_def)

lemma popcount_rec:
  "popcount w = (if w = 0 then 0 else (if odd w then 1 else 0) + popcount (drop_bit 1 w))"
proof -
  have eq: "{i. bit w i} = (if odd w then {0} else {}) \<union> Suc ` {i. bit (drop_bit 1 w) i}"
  proof (intro set_eqI iffI)
    fix i assume "i \<in> {i. bit w i}"
    then show "i \<in> (if odd w then {0} else {}) \<union> Suc ` {i. bit (drop_bit 1 w) i}"
      by (cases i) (auto simp: bit_drop_bit_eq bit_0)
  next
    fix i assume "i \<in> (if odd w then {0} else {}) \<union> Suc ` {i. bit (drop_bit 1 w) i}"
    then show "i \<in> {i. bit w i}"
      by (auto simp: bit_drop_bit_eq bit_0 split: if_splits)
  qed
  have "card {i. bit w i} = card (if odd w then {0::nat} else {}) + card (Suc ` {i. bit (drop_bit 1 w) i})"
    unfolding eq by (rule card_Un_disjoint) (auto split: if_splits)
  also have "card (Suc ` {i. bit (drop_bit 1 w) i}) = card {i. bit (drop_bit 1 w) i}"
    by (rule card_image) simp
  finally show ?thesis
    by (auto simp: popcount_card)
qed

lemmas hamt_eval =
  hamtSet_def hamtDelete_def hamtGet_def hamtHas_def hamtEmpty_def hash_index_def bit_of_def
  packed_index_def MASK_def BRANCH_FACTOR_def BITS_def array_get_def array_set_def
  splice_in_def splice_out_def ensureEditableHNode_def Let_def keyEquals_def object_is_def

lemma example_true_set: "hamtSet hamtEmpty None (VBool True) (VNum (Fin 1)) = Some example_true"
  by (simp add: example_true_def hamt_eval)

lemma example_true_reachable: "hamt_reachable example_true"
  using reach_set [OF reach_empty example_true_set] .

lemma example_true_zero_set:
  "hamtSet hamtEmpty None (VBool True) (VNum (Fin 0)) = Some example_true_zero"
  by (simp add: example_true_zero_def hamt_eval)

lemma example_zero_zero_set:
  "hamtSet hamtEmpty None (VNum NegZero) (VNum (Fin 0)) = Some example_zero_zero"
  by (simp add: example_zero_zero_def hamt_eval hashKey_neg_zero del: hashKey.simps)

lemma example_pair_set:
  "Option.bind (hamtSet hamtEmpty None (VNum (Fin 5)) (VNum (Fin 50)))
     (\<lambda>m. hamtSet m None (VNum (Fin 8)) (VNum (Fin 80))) = Some example_pair"
  by (simp add: example_pair_def hamt_eval hashKey_five hashKey_eight mergeLeaves.simps
      del: hashKey.simps)

lemma strict_eq_cases: "strict_eq a v \<Longrightarrow> a = v \<or> (is_zero a \<and> is_zero v)"
  by (cases "(a, v)" rule: strict_eq.cases) auto

lemma hamtSet_get:
  assumes inv: "hamt_inv m"
  shows "\<exists>m'. hamtSet m ow k v = Some m' \<and> hamt_inv m' \<and>
     (\<forall>k'. hamtGet m' k' =
        (if keyEquals k k' then
           (if hamtHas m k \<and> strict_eq (hamtGet m k) v then hamtGet m k else v)
         else hamtGet m k')) \<and>
     (\<forall>k'. hamtHas m' k' = (keyEquals k k' \<or> hamtHas m k'))"
proof -
  from hamtSet_ok [OF inv, of ow k v]
  obtain m' where m': "hamtSet m ow k v = Some m'" "hamt_inv m'"
    and lk: "\<And>k'. lookup m' k' =
        (if keyEquals k k' then
           (case lookup m k of
              None \<Rightarrow> Some (Leaf k (hashKey k) v)
            | Some l \<Rightarrow> if strict_eq (val l) v then Some l else Some (Leaf k (hashKey k) v))
         else lookup m k')"
    by blast
  have "hamtGet m' k' =
        (if keyEquals k k' then
           (if hamtHas m k \<and> strict_eq (hamtGet m k) v then hamtGet m k else v)
         else hamtGet m k')" for k'
    using lk [of k'] by (auto simp: hamtGet_lookup hamtHas_lookup inv m' split: option.splits)
  moreover have "hamtHas m' k' = (keyEquals k k' \<or> hamtHas m k')" for k'
    using lk [of k'] by (auto simp: hamtHas_lookup inv m' split: option.splits)
  ultimately show ?thesis using m' by blast
qed


section \<open>The insertion-order index: invariant and correctness\<close>

lemma slot_number_neq_undefined [simp]: "slot_number i \<noteq> VUndefined"
  by (simp add: slot_number_def)

lemma as_index_slot_number [simp]: "as_index (slot_number i) = Some i"
  by (simp add: slot_number_def)

lemma slot_number_inj [simp]: "slot_number i = slot_number j \<longleftrightarrow> i = j"
  by (simp add: slot_number_def)

lemma hamtGet_cong: "hamt_inv m \<Longrightarrow> keyEquals k k' \<Longrightarrow> hamtGet m k = hamtGet m k'"
  using lookup_cong [of k k' m] by (simp add: hamtGet_lookup)

lemma hamtHas_cong: "hamt_inv m \<Longrightarrow> keyEquals k k' \<Longrightarrow> hamtHas m k = hamtHas m k'"
  using lookup_cong [of k k' m] by (simp add: hamtHas_lookup)

lemma hamtSet_fresh:
  assumes "hamt_inv m" and "\<not> hamtHas m k"
  shows "\<exists>m'. hamtSet m ow k v = Some m' \<and> hamt_inv m' \<and>
           (\<forall>k'. hamtGet m' k' = (if keyEquals k k' then v else hamtGet m k')) \<and>
           (\<forall>k'. hamtHas m' k' = (keyEquals k k' \<or> hamtHas m k'))"
  using hamtSet_get [OF assms(1), of ow k v] assms(2) by auto

lemma orderIter_loop_append [simp]:
  "orderIter_loop (xs @ ys) = orderIter_loop xs @ orderIter_loop ys"
  by (induction xs rule: orderIter_loop.induct) simp_all

lemma orderIter_loop_map_Live [simp]: "orderIter_loop (map Live ks) = ks"
  by (induction ks) simp_all









lemma order_inv_slot:
  assumes "order_inv ord" "hamtHas (keyToIdx ord) k"
  shows "\<exists>i k0. i < length (idxToKey ord) \<and> idxToKey ord ! i = Live k0 \<and> keyEquals k0 k \<and>
           hamtGet (keyToIdx ord) k = slot_number i"
proof -
  obtain i k0 where s: "i < length (idxToKey ord)" "idxToKey ord ! i = Live k0" "keyEquals k0 k"
    using assms unfolding order_inv_def by blast
  have inv: "hamt_inv (keyToIdx ord)" using assms(1) unfolding order_inv_def by blast
  have "hamtGet (keyToIdx ord) k0 = slot_number i" using assms(1) s(1,2) unfolding order_inv_def by blast
  then have "hamtGet (keyToIdx ord) k = slot_number i" using hamtGet_cong [OF inv s(3)] by simp
  then show ?thesis using s by blast
qed

lemma hamtHas_empty [simp]: "\<not> hamtHas hamtEmpty k"
  unfolding hamtHas_lookup [OF hamt_inv_empty] by (simp add: lookup_def hamtEmpty_def)

lemma order_inv_len:
  assumes "order_inv ord" "idxToVal ord = Some vals"
  shows "length vals = length (idxToKey ord)"
proof -
  from assms(1) have "case idxToVal ord of None \<Rightarrow> True | Some vals \<Rightarrow> length vals = length (idxToKey ord)"
    unfolding order_inv_def by blast
  then show ?thesis using assms(2) by simp
qed

lemma order_inv_hamt: "order_inv ord \<Longrightarrow> hamt_inv (keyToIdx ord)"
  unfolding order_inv_def by blast

lemma order_inv_next: "order_inv ord \<Longrightarrow> next_slot ord = length (idxToKey ord)"
  unfolding order_inv_def by blast

lemma order_inv_holes: "order_inv ord \<Longrightarrow> holes ord = length (filter (\<lambda>s. s = DELETED) (idxToKey ord))"
  unfolding order_inv_def by blast

lemma order_inv_live:
  "order_inv ord \<Longrightarrow> i < length (idxToKey ord) \<Longrightarrow> idxToKey ord ! i = Live k \<Longrightarrow>
     hamtHas (keyToIdx ord) k \<and> hamtGet (keyToIdx ord) k = slot_number i"
  unfolding order_inv_def by blast






lemma order_inv_empty: "order_inv orderEmpty"
  unfolding order_inv_def
  by (simp add: orderEmpty_def emptyVec_def hamt_inv_empty)

lemma order_invI:
  assumes "hamt_inv (keyToIdx ord)"
    and "next_slot ord = length (idxToKey ord)"
    and "\<And>vals. idxToVal ord = Some vals \<Longrightarrow> length vals = length (idxToKey ord)"
    and "holes ord = length (filter (\<lambda>s. s = DELETED) (idxToKey ord))"
    and "\<And>i k. i < length (idxToKey ord) \<Longrightarrow> idxToKey ord ! i = Live k \<Longrightarrow>
           hamtHas (keyToIdx ord) k \<and> hamtGet (keyToIdx ord) k = slot_number i"
    and "\<And>k. hamtHas (keyToIdx ord) k \<Longrightarrow>
           \<exists>i k'. i < length (idxToKey ord) \<and> idxToKey ord ! i = Live k' \<and> keyEquals k' k"
  shows "order_inv ord"
  unfolding order_inv_def
proof (intro conjI allI impI)
  show "case idxToVal ord of None \<Rightarrow> True | Some vals \<Rightarrow> length vals = length (idxToKey ord)"
    using assms(3) by (cases "idxToVal ord") simp_all
qed (use assms in blast)+

lemma order_inv_has_slot:
  "order_inv ord \<Longrightarrow> hamtHas (keyToIdx ord) k \<Longrightarrow>
     \<exists>i k'. i < length (idxToKey ord) \<and> idxToKey ord ! i = Live k' \<and> keyEquals k' k"
  unfolding order_inv_def by blast

text \<open>Appending a key that the index does not hold.\<close>

lemma order_append_inv:
  assumes inv: "order_inv ord" and fresh: "\<not> hamtHas (keyToIdx ord) k"
    and set: "hamtSet (keyToIdx ord) ow k (slot_number (next_slot ord)) = Some k2i"
    and vals: "vals' = None \<or> (\<exists>vals v. idxToVal ord = Some vals \<and> vals' = Some (vals @ [v]))"
  shows "order_inv \<lparr>next_slot = next_slot ord + 1, keyToIdx = k2i,
                     idxToKey = idxToKey ord @ [Live k], idxToVal = vals', holes = holes ord\<rparr>"
    (is "order_inv ?r")
proof -
  let ?m = "keyToIdx ord"
  let ?ks = "idxToKey ord"
  have hinv: "hamt_inv ?m" using inv by (rule order_inv_hamt)
  have n: "next_slot ord = length ?ks" using inv by (rule order_inv_next)
  from hamtSet_fresh [OF hinv fresh, of ow "slot_number (next_slot ord)"] set
  have k2i: "hamt_inv k2i"
    "\<And>k'. hamtGet k2i k' = (if keyEquals k k' then slot_number (next_slot ord) else hamtGet ?m k')"
    "\<And>k'. hamtHas k2i k' = (keyEquals k k' \<or> hamtHas ?m k')"
    by auto
  show ?thesis
  proof (rule order_invI)
    show "hamt_inv (keyToIdx ?r)" using k2i(1) by simp
    show "next_slot ?r = length (idxToKey ?r)" using n by simp
    show "holes ?r = length (filter (\<lambda>s. s = DELETED) (idxToKey ?r))"
      using order_inv_holes [OF inv] by simp
  next
    fix vs assume "idxToVal ?r = Some vs"
    then obtain vals v where "idxToVal ord = Some vals" "vs = vals @ [v]" using vals by auto
    then show "length vs = length (idxToKey ?r)" using order_inv_len [OF inv] by simp
  next
    fix i x assume i: "i < length (idxToKey ?r)" and x: "idxToKey ?r ! i = Live x"
    show "hamtHas (keyToIdx ?r) x \<and> hamtGet (keyToIdx ?r) x = slot_number i"
    proof (cases "i < length ?ks")
      case True
      then have xi: "?ks ! i = Live x" using x by (simp add: nth_append)
      have l: "hamtHas ?m x" "hamtGet ?m x = slot_number i"
        using order_inv_live [OF inv True xi] by simp_all
      have "\<not> keyEquals k x" using fresh l(1) hamtHas_cong [OF hinv, of k x] by auto
      then show ?thesis using l k2i by simp
    next
      case False
      then have "i = length ?ks" using i by simp
      then have "x = k" using x by simp
      then show ?thesis using k2i n \<open>i = length ?ks\<close> by (simp add: keyEquals_refl)
    qed
  next
    fix x assume "hamtHas (keyToIdx ?r) x"
    then consider "keyEquals k x" | "hamtHas ?m x" using k2i(3) by auto
    then show "\<exists>i k'. i < length (idxToKey ?r) \<and> idxToKey ?r ! i = Live k' \<and> keyEquals k' x"
    proof cases
      case 1
      then show ?thesis by (intro exI [of _ "length ?ks"] exI [of _ k]) simp
    next
      case 2
      from order_inv_has_slot [OF inv 2] obtain i k' where
        "i < length ?ks" "?ks ! i = Live k'" "keyEquals k' x" by blast
      then show ?thesis by (intro exI [of _ i] exI [of _ k']) (simp add: nth_append)
    qed
  qed
qed

lemma orderAppend_ok:
  assumes "order_inv ord" and "\<not> hamtHas (keyToIdx ord) k"
  shows "\<exists>r. orderAppend ord ow k = Returns r \<and> order_inv r \<and>
           idxToKey r = idxToKey ord @ [Live k] \<and> idxToVal r = None \<and>
           (\<forall>k'. hamtHas (keyToIdx r) k' = (keyEquals k k' \<or> hamtHas (keyToIdx ord) k'))"
proof -
  have hinv: "hamt_inv (keyToIdx ord)" using assms(1) by (rule order_inv_hamt)
  from hamtSet_fresh [OF hinv assms(2), of ow "slot_number (next_slot ord)"]
  obtain k2i where k2i: "hamtSet (keyToIdx ord) ow k (slot_number (next_slot ord)) = Some k2i"
    "\<And>k'. hamtHas k2i k' = (keyEquals k k' \<or> hamtHas (keyToIdx ord) k')" by blast
  have "order_inv \<lparr>next_slot = next_slot ord + 1, keyToIdx = k2i,
                     idxToKey = idxToKey ord @ [Live k], idxToVal = None, holes = holes ord\<rparr>"
    by (rule order_append_inv [OF assms k2i(1)]) simp
  then show ?thesis using k2i by (simp add: orderAppend_def vecPush_def)
qed

lemma orderAppendWithValue_ok:
  assumes "order_inv ord" and "\<not> hamtHas (keyToIdx ord) k"
  shows "\<exists>r. orderAppendWithValue ord ow k v = Returns r \<and> order_inv r \<and>
           idxToKey r = idxToKey ord @ [Live k] \<and>
           idxToVal r = map_option (\<lambda>vals. vals @ [Live v]) (idxToVal ord) \<and>
           (\<forall>k'. hamtHas (keyToIdx r) k' = (keyEquals k k' \<or> hamtHas (keyToIdx ord) k'))"
proof -
  have hinv: "hamt_inv (keyToIdx ord)" using assms(1) by (rule order_inv_hamt)
  from hamtSet_fresh [OF hinv assms(2), of ow "slot_number (next_slot ord)"]
  obtain k2i where k2i: "hamtSet (keyToIdx ord) ow k (slot_number (next_slot ord)) = Some k2i"
    "\<And>k'. hamtHas k2i k' = (keyEquals k k' \<or> hamtHas (keyToIdx ord) k')" by blast
  have "order_inv \<lparr>next_slot = next_slot ord + 1, keyToIdx = k2i,
                     idxToKey = idxToKey ord @ [Live k],
                     idxToVal = map_option (\<lambda>vals. vals @ [Live v]) (idxToVal ord), holes = holes ord\<rparr>"
    by (rule order_append_inv [OF assms k2i(1)]) (cases "idxToVal ord"; simp)
  then show ?thesis using k2i
    by (cases "idxToVal ord") (simp_all add: orderAppendWithValue_def vecPush_def)
qed

lemma orderUpdateValue_ok:
  assumes "order_inv ord" and "hamtHas (keyToIdx ord) k"
  shows "\<exists>i k0 r. i < length (idxToKey ord) \<and> idxToKey ord ! i = Live k0 \<and> keyEquals k0 k \<and>
           orderUpdateValue ord ow k v = Returns r \<and> order_inv r \<and>
           r = ord\<lparr>idxToVal := map_option (\<lambda>vals. vals[i := Live v]) (idxToVal ord)\<rparr>"
proof -
  from order_inv_slot [OF assms]
  obtain i k0 where s: "i < length (idxToKey ord)" "idxToKey ord ! i = Live k0" "keyEquals k0 k"
    "hamtGet (keyToIdx ord) k = slot_number i" by blast
  let ?r = "ord\<lparr>idxToVal := map_option (\<lambda>vals. vals[i := Live v]) (idxToVal ord)\<rparr>"
  have inv: "order_inv ?r"
  proof (rule order_invI)
    fix vs assume "idxToVal ?r = Some vs"
    then show "length vs = length (idxToKey ?r)"
      using order_inv_len [OF assms(1)] by (cases "idxToVal ord") auto
  qed (use assms(1) order_inv_hamt order_inv_next order_inv_holes order_inv_live order_inv_has_slot in simp_all)
  have ret: "orderUpdateValue ord ow k v = Returns ?r"
  proof (cases "idxToVal ord")
    case None
    then show ?thesis by (simp add: orderUpdateValue_def)
  next
    case (Some vals)
    have "i < length vals" using order_inv_len [OF assms(1) Some] s(1) by simp
    then show ?thesis using Some s(4)
      by (simp add: orderUpdateValue_def vecAssoc_at_def vecAssoc_def count_def)
  qed
  show ?thesis
    by (rule exI [of _ i], rule exI [of _ k0], rule exI [of _ ?r])
       (simp only: s(1,2,3) ret inv simp_thms)
qed



lemma orderFromSetBase_loop_ok:
  assumes "hamt_inv m"
    and "keys_distinct es"
    and "\<forall>x\<in>set es. \<not> hamtHas m x"
  shows "\<exists>m'. orderFromSetBase_loop es ow (m, ks, j) =
           Some (m', ks @ map Live es, j + length es) \<and>
         hamt_inv m' \<and>
         (\<forall>p. p < length es \<longrightarrow> hamtGet m' (es ! p) = slot_number (j + p)) \<and>
         (\<forall>k. hamtHas m' k = (hamtHas m k \<or> (\<exists>x\<in>set es. keyEquals x k))) \<and>
         (\<forall>k. (\<forall>x\<in>set es. \<not> keyEquals x k) \<longrightarrow> hamtGet m' k = hamtGet m k)"
  using assms
proof (induction es arbitrary: m ks j)
  case Nil
  then show ?case by simp
next
  case (Cons k es)
  have fresh: "\<not> hamtHas m k" using Cons.prems(3) by simp
  from hamtSet_fresh [OF Cons.prems(1) fresh, of ow "slot_number j"]
  obtain m1 where m1: "hamtSet m ow k (slot_number j) = Some m1" "hamt_inv m1"
      "\<And>k'. hamtGet m1 k' = (if keyEquals k k' then slot_number j else hamtGet m k')"
      "\<And>k'. hamtHas m1 k' = (keyEquals k k' \<or> hamtHas m k')"
    by blast
  have d: "keys_distinct es" and nx: "\<forall>y\<in>set es. \<not> keyEquals k y"
    using Cons.prems(2) by simp_all
  have f: "\<forall>y\<in>set es. \<not> hamtHas m1 y"
    using Cons.prems(3) nx m1(4) by simp
  from Cons.IH [OF m1(2) d f, of "ks @ [Live k]" "j + 1"]
  obtain m' where m': "orderFromSetBase_loop es ow (m1, ks @ [Live k], j + 1) =
           Some (m', (ks @ [Live k]) @ map Live es, j + 1 + length es)"
      "hamt_inv m'"
      "\<And>p. p < length es \<Longrightarrow> hamtGet m' (es ! p) = slot_number (j + 1 + p)"
      "\<And>k. hamtHas m' k = (hamtHas m1 k \<or> (\<exists>x\<in>set es. keyEquals x k))"
      "\<And>k. (\<forall>x\<in>set es. \<not> keyEquals x k) \<Longrightarrow> hamtGet m' k = hamtGet m1 k"
    by blast
  have step: "orderFromSetBase_loop (k # es) ow (m, ks, j) =
              orderFromSetBase_loop es ow (m1, ks @ [Live k], j + 1)"
    using m1(1) by simp
  have xk: "hamtGet m' k = slot_number j"
  proof -
    have "\<forall>y\<in>set es. \<not> keyEquals y k" using nx keyEquals_sym by blast
    then have "hamtGet m' k = hamtGet m1 k" by (rule m'(5))
    then show ?thesis by (simp add: m1(3) keyEquals_refl)
  qed
  have gets: "\<forall>p. p < length (k # es) \<longrightarrow> hamtGet m' ((k # es) ! p) = slot_number (j + p)"
  proof (intro allI impI)
    fix p assume p: "p < length (k # es)"
    show "hamtGet m' ((k # es) ! p) = slot_number (j + p)"
    proof (cases p)
      case 0
      then show ?thesis using xk by simp
    next
      case (Suc q)
      then show ?thesis using p m'(3) [of q] by simp
    qed
  qed
  have has: "\<forall>x. hamtHas m' x = (hamtHas m x \<or> (\<exists>y\<in>set (k # es). keyEquals y x))"
    using m'(4) m1(4) by auto
  have other: "\<forall>x. (\<forall>y\<in>set (k # es). \<not> keyEquals y x) \<longrightarrow> hamtGet m' x = hamtGet m x"
    using m'(5) m1(3) by simp
  show ?case
    unfolding step using m'(1,2) gets has other by simp
qed

lemma orderFromSetBase_ok:
  assumes "keys_distinct es"
  shows "\<exists>r. orderFromSetBase es ow = Returns r \<and> order_inv r \<and>
           idxToKey r = map Live es \<and> idxToVal r = None \<and> holes r = 0 \<and>
           (\<forall>k. hamtHas (keyToIdx r) k = (\<exists>x\<in>set es. keyEquals x k))"
proof -
  have f: "\<forall>x\<in>set es. \<not> hamtHas hamtEmpty x" by simp
  from orderFromSetBase_loop_ok [OF hamt_inv_empty assms f, of ow "[]" 0]
  obtain m' where m': "orderFromSetBase_loop es ow (hamtEmpty, [], 0) =
           Some (m', map Live es, length es)"
      "hamt_inv m'"
      "\<And>p. p < length es \<Longrightarrow> hamtGet m' (es ! p) = slot_number p"
      "\<And>k. hamtHas m' k = (\<exists>x\<in>set es. keyEquals x k)"
    by auto
  let ?r = "\<lparr>next_slot = length es, keyToIdx = m', idxToKey = map Live es,
             idxToVal = None, holes = 0\<rparr>"
  have ret: "orderFromSetBase es ow = Returns ?r"
    using m'(1) by (simp add: orderFromSetBase_def vecFromArray_def)
  have inv: "order_inv ?r"
  proof (rule order_invI)
    show "holes ?r = length (filter (\<lambda>s. s = DELETED) (idxToKey ?r))"
      by (simp add: filter_map o_def)
  next
    fix i k assume i: "i < length (idxToKey ?r)" and k: "idxToKey ?r ! i = Live k"
    then have ki: "k = es ! i" and il: "i < length es" by simp_all
    have "es ! i \<in> set es" using il by simp
    then have "hamtHas m' k" using m'(4) [of k] ki keyEquals_refl by blast
    then show "hamtHas (keyToIdx ?r) k \<and> hamtGet (keyToIdx ?r) k = slot_number i"
      using m'(3) [OF il] ki by simp
  next
    fix k assume "hamtHas (keyToIdx ?r) k"
    then obtain x where "x \<in> set es" "keyEquals x k" using m'(4) by auto
    then show "\<exists>i k'. i < length (idxToKey ?r) \<and> idxToKey ?r ! i = Live k' \<and> keyEquals k' k"
      by (auto simp: in_set_conv_nth)
  qed (use m'(2) in simp_all)
  show ?thesis
    by (rule exI [of _ ?r]) (simp add: ret inv m'(4))
qed




section \<open>Array indices\<close>

lemma round_double_small: "n < 2 ^ 53 \<Longrightarrow> round_double n = n"
proof -
  assume a: "n < 2 ^ 53"
  have "floorlog 2 n \<le> 53"
  proof (cases "n = 0")
    case True
    then show ?thesis by (simp add: floorlog_def)
  next
    case False
    then show ?thesis using a floorlog_le_iff [of 2 n 53] by simp
  qed
  then show ?thesis by (simp add: round_double_def)
qed

lemma parse_index_loop_append:
  "parse_index_loop (cs @ [c]) idx =
     (let r = parse_index_loop cs idx
      in if r < 0 then - 1
         else if c < 48 \<or> c > 57 then - 1
         else int (round_double (round_double (nat r * 10) + (unat c - 48))))"
  by (induction cs arbitrary: idx) (simp_all add: Let_def)

lemma digit_char:
  assumes "d < 10"
  shows "(of_nat (48 + d) :: 16 word) \<ge> 48" "(of_nat (48 + d) :: 16 word) \<le> 57"
    "unat (of_nat (48 + d) :: 16 word) - 48 = d"
proof -
  have "unat (of_nat (48 + d) :: 16 word) = (48 + d) mod 2 ^ 16"
    by (simp only: unat_of_nat len_of_numeral_defs) simp
  then have u: "unat (of_nat (48 + d) :: 16 word) = 48 + d"
    using assms by simp
  show "(of_nat (48 + d) :: 16 word) \<ge> 48" "(of_nat (48 + d) :: 16 word) \<le> 57"
    using u assms by (simp_all add: word_le_nat_alt)
  show "unat (of_nat (48 + d) :: 16 word) - 48 = d" using u by simp
qed

lemma parse_decimal_digits:
  "n < 2 ^ 53 \<Longrightarrow>
     \<exists>c0 cs. decimal_digits n = c0 # cs \<and> c0 \<ge> 48 \<and> c0 \<le> 57 \<and>
       parse_index_loop cs (unat c0 - 48) = int n"
proof (induction n rule: decimal_digits.induct)
  case (1 n)
  show ?case
  proof (cases "n < 10")
    case True
    then show ?thesis using digit_char [of n] by (subst decimal_digits.simps) simp
  next
    case False
    have "n div 10 < 2 ^ 53" using "1.prems" by (simp add: less_mult_imp_div_less)
    from "1.IH" [OF False this] obtain c0 cs where
      d: "decimal_digits (n div 10) = c0 # cs" "c0 \<ge> 48" "c0 \<le> 57"
         "parse_index_loop cs (unat c0 - 48) = int (n div 10)" by blast
    have m: "n mod 10 < 10" by simp
    have dd: "decimal_digits n = c0 # (cs @ [of_nat (48 + n mod 10)])"
      using False d(1) by (subst decimal_digits.simps) simp
    have a: "n div 10 * 10 < 2 ^ 53" using "1.prems" by (simp add: div_times_less_eq_dividend le_less_trans)
    have b: "n div 10 * 10 + n mod 10 = n" by simp
    have r1: "round_double (n div 10 * 10) = n div 10 * 10" using a by (rule round_double_small)
    have r2: "round_double (n div 10 * 10 + n mod 10) = n"
      using round_double_small [OF "1.prems"] b by simp
    have c: "\<not> ((of_nat (48 + n mod 10) :: 16 word) < 48 \<or> (of_nat (48 + n mod 10) :: 16 word) > 57)"
      using digit_char(1,2) [OF m] by (simp only: not_le not_less de_Morgan_disj simp_thms)
    have "parse_index_loop (cs @ [of_nat (48 + n mod 10)]) (unat c0 - 48) = int n"
      unfolding parse_index_loop_append Let_def d(4)
      by (simp only: c if_False nat_int r1 digit_char(3) [OF m] r2) simp
    then show ?thesis using dd d(2,3) by simp
  qed
qed

lemma parse_index_decimal_digits:
  "n < 2 ^ 53 \<Longrightarrow> parse_index (PString (decimal_digits n)) = Some (int n)"
  using parse_decimal_digits [of n] by auto

lemma decimal_digits_not_length: "n < 2 ^ 53 \<Longrightarrow> decimal_digits n \<noteq> map of_char ''length''"
  using parse_decimal_digits [of n] by auto

lemma array_set_trap_index:
  assumes "n < 2 ^ 53"
  shows "array_set_trap st (PString (decimal_digits n)) v =
     Some (Returns
       (if n < count (arr_vec st) then
          (True, st\<lparr>arr_vec := (arr_vec st)[n := v], arr_modified := True,
                    arr_proxies := map_option (filter (\<lambda>e. fst e \<noteq> n)) (arr_proxies st)\<rparr>)
        else if n = count (arr_vec st) then
          (True, st\<lparr>arr_vec := arr_vec st @ [v], arr_modified := True\<rparr>)
        else (False, st)))"
  using assms decimal_digits_not_length [OF assms]
  by (simp add: array_set_trap_def parse_index_decimal_digits vecAssoc_def vecPush_def)

section \<open>Claims about the HAMT\<close>

text \<open>
  C1.  As stated the claim fails: \<open>hamtInsert\<close> leaves the map as it is when the value
  stored under the key is strictly equal (\<open>===\<close>) to the new one, and \<open>+0 === -0\<close>.
  On the map \<open>{true: +0}\<close>, setting \<open>true\<close> to \<open>-0\<close> returns the map itself, and the value
  read back is \<open>+0\<close>, not \<open>-0\<close>.
\<close>

theorem hamtGet_hamtSet_counterexample:
  "hamtSet hamtEmpty None (VBool True) (VNum (Fin 0)) = Some example_true_zero \<and>
   hamtSet example_true_zero None (VBool True) (VNum NegZero) = Some example_true_zero \<and>
   hamtGet example_true_zero (VBool True) \<noteq> VNum NegZero"
  by (simp add: example_true_zero_def hamt_eval)

text \<open>
  C1, amended.  For every map \<open>m\<close> built from \<open>hamtEmpty\<close> by \<open>hamtSet\<close> and \<open>hamtDelete\<close>,
  every owner, keys \<open>k\<close>, \<open>k'\<close> and value \<open>v\<close>: \<open>hamtSet(m, owner, k, v)\<close> returns a map; reading
  \<open>k\<close> from it gives \<open>v\<close>, unless \<open>k\<close> was present in \<open>m\<close> with a value strictly equal
  (\<open>===\<close>) to \<open>v\<close>, in which case it gives the value that was stored (which is \<open>v\<close> or a zero
  of the other sign); and reading a key \<open>k'\<close> that is not equal to \<open>k\<close> under \<open>keyEquals\<close>
  gives what it gave in \<open>m\<close>.
\<close>

theorem hamtGet_hamtSet:
  assumes "hamt_reachable m"
  shows "\<exists>m'. hamtSet m ow k v = Some m' \<and>
     hamtGet m' k = (if hamtHas m k \<and> strict_eq (hamtGet m k) v then hamtGet m k else v) \<and>
     (hamtGet m' k = v \<or> (is_zero (hamtGet m' k) \<and> is_zero v)) \<and>
     (\<not> keyEquals k k' \<longrightarrow> hamtGet m' k' = hamtGet m k')"
proof -
  have inv: "hamt_inv m" using assms by (rule hamt_reachable_inv)
  from hamtSet_get [OF inv, of ow k v]
  obtain m' where m': "hamtSet m ow k v = Some m'"
    and g: "\<And>k'. hamtGet m' k' =
        (if keyEquals k k' then
           (if hamtHas m k \<and> strict_eq (hamtGet m k) v then hamtGet m k else v)
         else hamtGet m k')"
    by blast
  have "hamtGet m' k = (if hamtHas m k \<and> strict_eq (hamtGet m k) v then hamtGet m k else v)"
    using g [of k] by (simp add: keyEquals_refl)
  moreover from this have "hamtGet m' k = v \<or> (is_zero (hamtGet m' k) \<and> is_zero v)"
    using strict_eq_cases [of "hamtGet m k" v] by (auto split: if_splits)
  moreover have "\<not> keyEquals k k' \<longrightarrow> hamtGet m' k' = hamtGet m k'"
    using g [of k'] by simp
  ultimately show ?thesis using m' by blast
qed

theorem hamtGet_hamtSet_witness:
  "hamt_reachable example_true \<and> \<not> keyEquals (VBool False) (VBool True) \<and>
   (\<exists>m'. hamtSet example_true None (VBool False) (VNum (Fin 2)) = Some m' \<and>
      hamtGet m' (VBool False) = VNum (Fin 2) \<and> hamtGet m' (VBool True) = VNum (Fin 1))"
proof -
  have nk: "\<not> keyEquals (VBool False) (VBool True)"
    by (simp add: keyEquals_def object_is_def)
  have nh: "\<not> hamtHas example_true (VBool False)"
    and g: "hamtGet example_true (VBool True) = VNum (Fin 1)"
    by (simp_all add: example_true_def hamt_eval)
  from hamtGet_hamtSet [OF example_true_reachable, of None "VBool False" "VNum (Fin 2)" "VBool True"]
  show ?thesis
    using nk nh g example_true_reachable by auto
qed

text \<open>
  C4.  The code does not do what the claim says.  \<open>hamtRemove\<close> replaces a branch by its
  only remaining child in the path where the child it descended into has become \<open>null\<close>,
  and not in the path where that child was itself replaced by a leaf.  The two keys of
  \<open>{5: 50, 8: 80}\<close> share the slot at shift 0 and sit in a branch below it; deleting \<open>5\<close>
  collapses the lower branch into the leaf of \<open>8\<close>, and the root stays a branch whose only
  child is that leaf.
\<close>

theorem hamtDelete_single_leaf_branch:
  "Option.bind (hamtSet hamtEmpty None (VNum (Fin 5)) (VNum (Fin 50)))
     (\<lambda>m. hamtSet m None (VNum (Fin 8)) (VNum (Fin 80))) = Some example_pair \<and>
   hamtDelete example_pair None (VNum (Fin 5)) =
     \<lparr>root = Some (HNode None 2 [HLeaf (Leaf (VNum (Fin 8)) 3829098881 (VNum (Fin 80)))]), msize = 1\<rparr> \<and>
   \<not> no_single_leaf_branch (HNode None 2 [HLeaf (Leaf (VNum (Fin 8)) 3829098881 (VNum (Fin 80)))])"
  by (simp add: example_pair_def hamt_eval hashKey_five hashKey_eight popcount_rec mergeLeaves.simps
      del: hashKey.simps)






section \<open>Claims about the insertion-order index\<close>



section \<open>Claims about the wrappers\<close>

text \<open>
  C10.  Let \<open>n\<close> be an index below \<open>2^53\<close>, where the decimal digits of a number name the
  number, and let the state of an array wrapper be any state at all.  Assigning at \<open>n\<close>:
  if \<open>n\<close> is the length, the trap succeeds, the length grows by one and the elements are
  the old ones followed by the value; if \<open>n\<close> is greater than the length, the trap fails
  and the state is the one before; if \<open>n\<close> is less than the length, the trap succeeds, the
  length is the same, position \<open>n\<close> holds the value and every other position holds what it
  held.
\<close>

theorem array_index_assignment:
  assumes "n < 2 ^ 53"
  shows "(n = array_length st \<longrightarrow>
            (\<exists>st'. array_set_trap st (PString (decimal_digits n)) v = Some (Returns (True, st')) \<and>
               array_length st' = array_length st + 1 \<and>
               vecToArray (arr_vec st') = vecToArray (arr_vec st) @ [v])) \<and>
         (n > array_length st \<longrightarrow>
            array_set_trap st (PString (decimal_digits n)) v = Some (Returns (False, st))) \<and>
         (n < array_length st \<longrightarrow>
            (\<exists>st'. array_set_trap st (PString (decimal_digits n)) v = Some (Returns (True, st')) \<and>
               array_length st' = array_length st \<and>
               vecGet (arr_vec st') n = Some v \<and>
               (\<forall>j. j \<noteq> n \<longrightarrow> vecGet (arr_vec st') j = vecGet (arr_vec st) j)))"
proof -
  note t = array_set_trap_index [OF assms, of st v]
  consider "n < count (arr_vec st)" | "n = count (arr_vec st)" | "n > count (arr_vec st)"
    by linarith
  then show ?thesis
  proof cases
    case 1
    then show ?thesis
      unfolding t by (simp add: array_length_def count_def vecGet_def)
  next
    case 2
    then show ?thesis
      unfolding t by (simp add: array_length_def count_def vecToArray_def)
  next
    case 3
    then show ?thesis
      unfolding t by (simp add: array_length_def)
  qed
qed

theorem array_index_assignment_witness:
  "(2 :: nat) < 2 ^ 53 \<and>
   array_length (final_array_state (vecFromArray [VBool True, VNull])) = 2 \<and>
   (\<exists>st'. array_set_trap (final_array_state (vecFromArray [VBool True, VNull])) (PString [50]) (VNum (Fin 7)) =
            Some (Returns (True, st')) \<and>
          array_length st' = 3 \<and>
          vecToArray (arr_vec st') = [VBool True, VNull, VNum (Fin 7)])"
proof -
  have d: "decimal_digits 2 = [50]" by (simp add: decimal_digits.simps)
  have l: "array_length (final_array_state (vecFromArray [VBool True, VNull])) = 2"
    by (simp add: array_length_def final_array_state_def vecFromArray_def count_def)
  from array_index_assignment [of 2 "final_array_state (vecFromArray [VBool True, VNull])" "VNum (Fin 7)"]
  show ?thesis
    unfolding d l by (simp add: final_array_state_def vecFromArray_def vecToArray_def)
qed

end
